theory Spec2Isabelle
  imports Main "HOL-Library.Sublist" "HOL-Library.Multiset"
begin

section \<open>JavaScript strings\<close>

text \<open>
  A JavaScript string is a sequence of UTF-16 code units.  Here it is a \<^typ>\<open>string\<close>:
  a \<^typ>\<open>char\<close> stands for a code unit below 256 (ASCII and Latin-1), which covers every
  character the regular expressions, separators and literals of the source name.
  \<open>length\<close> is JavaScript's \<open>.length\<close>.
\<close>

definition cu :: "char \<Rightarrow> nat" where
  "cu c = of_char c"

text \<open>\<open>String.prototype.trim\<close>: white space and line terminators among the code units
  below 256 are TAB, LF, VT, FF, CR, SPACE and NBSP.\<close>

definition isSpace :: "char \<Rightarrow> bool" where
  "isSpace c = (cu c \<in> {9, 10, 11, 12, 13, 32, 160})"

definition trimStart :: "string \<Rightarrow> string" where
  "trimStart s = dropWhile isSpace s"

definition trimEnd :: "string \<Rightarrow> string" where
  "trimEnd s = rev (dropWhile isSpace (rev s))"

definition trim :: "string \<Rightarrow> string" where
  "trim s = trimEnd (trimStart s)"

text \<open>\<open>String.prototype.toLowerCase\<close> on code units below 256: \<open>A\<close>--\<open>Z\<close> and the
  Latin-1 capitals U+00C0--U+00DE (without the multiplication sign U+00D7) move up by 32.\<close>

definition isUpper :: "char \<Rightarrow> bool" where
  "isUpper c = ((65 \<le> cu c \<and> cu c \<le> 90) \<or> (192 \<le> cu c \<and> cu c \<le> 222 \<and> cu c \<noteq> 215))"

definition lowerChar :: "char \<Rightarrow> char" where
  "lowerChar c = (if isUpper c then char_of (cu c + 32) else c)"

definition toLowerCase :: "string \<Rightarrow> string" where
  "toLowerCase s = map lowerChar s"

text \<open>\<open>s.split(c)\<close> for a one-character separator: the pieces between the occurrences
  of \<open>c\<close>; never empty (\<open>''''.split(c)\<close> is \<open>['''']\<close>).\<close>

fun splitChar :: "char \<Rightarrow> string \<Rightarrow> string list" where
  "splitChar c [] = [[]]"
| "splitChar c (x # xs) =
     (if x = c then [] # splitChar c xs
      else (case splitChar c xs of p # ps \<Rightarrow> (x # p) # ps | [] \<Rightarrow> [[x]]))"

text \<open>\<open>s.includes(t)\<close>, \<open>s.startsWith(t)\<close>, \<open>s.endsWith(t)\<close>.\<close>

fun startsWith :: "string \<Rightarrow> string \<Rightarrow> bool" where
  "startsWith s [] = True"
| "startsWith [] (y # ys) = False"
| "startsWith (x # xs) (y # ys) = (x = y \<and> startsWith xs ys)"

definition endsWith :: "string \<Rightarrow> string \<Rightarrow> bool" where
  "endsWith s t = startsWith (rev s) (rev t)"

fun includesStr :: "string \<Rightarrow> string \<Rightarrow> bool" where
  "includesStr [] t = (t = [])"
| "includesStr (x # xs) t = (startsWith (x # xs) t \<or> includesStr xs t)"

section \<open>Regular expressions\<close>

text \<open>
  The regular expressions of the source are values of \<open>rx\<close>; \<open>ms r s\<close> runs the
  backtracking matcher of JavaScript at the start of \<open>s\<close> and lists, in the order the
  matcher tries them, what is left of \<open>s\<close> after each way \<open>r\<close> can match.  Quantifiers are
  greedy: one more iteration is tried before stopping, and an iteration that consumes
  nothing is rejected.  The first element is the match \<open>exec\<close> reports.
\<close>

datatype rx =
    Cls "char \<Rightarrow> bool"
  | Eps
  | Eos
  | Seq rx rx
  | Alt rx rx
  | Opt rx
  | Star rx

fun ms :: "rx \<Rightarrow> string \<Rightarrow> string list" where
  "ms (Cls p) s = (case s of [] \<Rightarrow> [] | c # cs \<Rightarrow> if p c then [cs] else [])"
| "ms Eps s = [s]"
| "ms Eos s = (if s = [] then [s] else [])"
| "ms (Seq a b) s = concat (map (ms b) (ms a s))"
| "ms (Alt a b) s = ms a s @ ms b s"
| "ms (Opt a) s = ms a s @ [s]"
| "ms (Star a) s =
     concat (map (ms (Star a)) (filter (\<lambda>t. length t < length s) (ms a s))) @ [s]"

declare ms.simps(7) [simp del]

text \<open>Literal characters and strings, \<open>r+\<close>, \<open>r{n,}\<close> and \<open>r{n,m}\<close>.\<close>

definition Chr :: "char \<Rightarrow> rx" where
  "Chr c = Cls (\<lambda>x. x = c)"

primrec Lit :: "string \<Rightarrow> rx" where
  "Lit [] = Eps"
| "Lit (c # cs) = Seq (Chr c) (Lit cs)"

definition Plus :: "rx \<Rightarrow> rx" where
  "Plus r = Seq r (Star r)"

primrec Times :: "nat \<Rightarrow> rx \<Rightarrow> rx \<Rightarrow> rx" where
  "Times 0 r k = k"
| "Times (Suc n) r k = Seq r (Times n r k)"

primrec UpTo :: "nat \<Rightarrow> rx \<Rightarrow> rx" where
  "UpTo 0 r = Eps"
| "UpTo (Suc n) r = Opt (Seq r (UpTo n r))"

definition AtLeast :: "nat \<Rightarrow> rx \<Rightarrow> rx" where
  "AtLeast n r = Times n r (Star r)"

definition Between :: "nat \<Rightarrow> nat \<Rightarrow> rx \<Rightarrow> rx" where
  "Between n m r = Times n r (UpTo (m - n) r)"

text \<open>Character classes of the source.\<close>

definition az :: "char \<Rightarrow> bool" where
  "az c = (97 \<le> cu c \<and> cu c \<le> 122)"

definition AZ :: "char \<Rightarrow> bool" where
  "AZ c = (65 \<le> cu c \<and> cu c \<le> 90)"

definition digit :: "char \<Rightarrow> bool" where
  "digit c = (48 \<le> cu c \<and> cu c \<le> 57)"

text \<open>
  \<open>execAt r s\<close>: the match of \<open>r\<close> at the start of \<open>s\<close>, as the matched text and the
  rest.  \<open>search r s\<close>: the leftmost match, trying every start index from 0 to the length
  of \<open>s\<close>, as the text before, the matched text and the rest.
\<close>

definition execAt :: "rx \<Rightarrow> string \<Rightarrow> (string \<times> string) option" where
  "execAt r s = (case ms r s of [] \<Rightarrow> None
                 | t # _ \<Rightarrow> Some (take (length s - length t) s, t))"

fun search :: "rx \<Rightarrow> string \<Rightarrow> (string \<times> string \<times> string) option" where
  "search r [] = (case execAt r [] of None \<Rightarrow> None | Some (m, t) \<Rightarrow> Some ([], m, t))"
| "search r (c # cs) =
     (case execAt r (c # cs) of
        Some (m, t) \<Rightarrow> Some ([], m, t)
      | None \<Rightarrow> (case search r cs of None \<Rightarrow> None
                 | Some (b, m, t) \<Rightarrow> Some (c # b, m, t)))"

text \<open>\<open>/r/.test(s)\<close>, and \<open>/^r/.test(s)\<close> for a pattern anchored at the start.\<close>

definition test :: "rx \<Rightarrow> string \<Rightarrow> bool" where
  "test r s = (search r s \<noteq> None)"

definition testStart :: "rx \<Rightarrow> string \<Rightarrow> bool" where
  "testStart r s = (execAt r s \<noteq> None)"

text \<open>\<open>s.replace(/r/, '''')\<close> and \<open>s.replace(/^r/, '''')\<close>: the first match is removed.\<close>

definition removeFirst :: "rx \<Rightarrow> string \<Rightarrow> string" where
  "removeFirst r s = (case search r s of None \<Rightarrow> s | Some (b, m, t) \<Rightarrow> b @ t)"

definition removeStart :: "rx \<Rightarrow> string \<Rightarrow> string" where
  "removeStart r s = (case execAt r s of None \<Rightarrow> s | Some (m, t) \<Rightarrow> t)"

text \<open>\<open>s.match(/r/g) || []\<close>: every match from left to right, the search resuming where
  the previous match ended (one code unit further after an empty match).\<close>

lemma ms_suffix: "t \<in> set (ms r s) \<Longrightarrow> suffix t s"
proof (induction r s arbitrary: t rule: ms.induct)
  case (1 p s)
  then show ?case by (cases s) (auto simp: suffix_Cons split: if_splits)
next
  case (4 a b s)
  then obtain u where "u \<in> set (ms a s)" "t \<in> set (ms b u)" by auto
  with 4 show ?case by (blast intro: suffix_order.trans)
next
  case (7 a s)
  show ?case
  proof (cases "t = s")
    case False
    with 7(3) obtain u where u: "u \<in> set (ms a s)" "length u < length s" "t \<in> set (ms (Star a) u)"
      by (subst (asm) ms.simps(7)) auto
    then have "suffix u s" "suffix t u" using 7(1,2) by auto
    then show ?thesis by (rule suffix_order.trans[rotated])
  qed simp
qed (auto split: if_splits)

lemma execAt_parts: "execAt r s = Some (m, t) \<Longrightarrow> s = m @ t"
proof -
  assume a: "execAt r s = Some (m, t)"
  then obtain ts where ts: "ms r s = t # ts" and m: "m = take (length s - length t) s"
    by (auto simp: execAt_def split: list.splits)
  from ts have "t \<in> set (ms r s)" by simp
  then have "suffix t s" by (rule ms_suffix)
  then obtain p where "s = p @ t" by (auto simp: suffix_def)
  with m show ?thesis by simp
qed

lemma execAt_length: "execAt r s = Some (m, t) \<Longrightarrow> length s = length m + length t"
  by (drule execAt_parts) simp


lemma search_parts: "search r s = Some (b, m, t) \<Longrightarrow> s = b @ m @ t"
proof (induction s arbitrary: b)
  case Nil
  then show ?case by (auto split: option.splits dest: execAt_parts)
next
  case (Cons c cs)
  show ?case
  proof (cases "execAt r (c # cs)")
    case None
    with Cons.prems obtain b' where "search r cs = Some (b', m, t)" "b = c # b'"
      by (auto split: option.splits)
    with Cons.IH show ?thesis by simp
  next
    case (Some a)
    with Cons.prems show ?thesis by (cases a) (auto dest: execAt_parts)
  qed
qed

lemma search_length:
  "search r s = Some (b, m, t) \<Longrightarrow> length s = length b + length m + length t"
  by (drule search_parts) simp

function matchAll :: "rx \<Rightarrow> string \<Rightarrow> string list" where
  "matchAll r s =
     (case search r s of
        None \<Rightarrow> []
      | Some (b, m, t) \<Rightarrow>
          if m = [] then (case t of [] \<Rightarrow> [m] | c # cs \<Rightarrow> m # matchAll r cs)
          else m # matchAll r t)"
  by pat_completeness auto
termination
  by (relation "measure (\<lambda>(r, s). length s)") (auto dest!: search_length)

declare matchAll.simps [simp del]

text \<open>\<open>s.split(/r/)\<close> for a pattern without capture groups: at each index \<open>q\<close> the
  pattern is tried at \<open>q\<close> only; a match ending at the start \<open>p\<close> of the current piece is
  skipped; otherwise the piece is closed and the next one begins at the end of the match.
  \<open>acc\<close> holds the current piece reversed.  An empty string splits into itself unless the
  pattern matches it.\<close>

function splitLoop :: "rx \<Rightarrow> string \<Rightarrow> string \<Rightarrow> string list" where
  "splitLoop r acc [] = [rev acc]"
| "splitLoop r acc (c # cs) =
     (case execAt r (c # cs) of
        None \<Rightarrow> splitLoop r (c # acc) cs
      | Some (m, t) \<Rightarrow>
          if m = [] \<and> acc = [] then splitLoop r (c # acc) cs
          else rev acc # splitLoop r [] t)"
  by pat_completeness auto
termination
  apply (relation "measure (\<lambda>(r, acc, s). 2 * length s + (if acc = [] then 0 else 1))")
     apply (auto dest!: execAt_length)
  subgoal for cs m t by (cases m) auto
  done

definition splitRx :: "rx \<Rightarrow> string \<Rightarrow> string list" where
  "splitRx r s = (if s = [] then (if execAt r [] = None then [s] else []) else splitLoop r [] s)"

text \<open>\<open>[...new Set(xs)]\<close>: each element is added unless already present; the result is in
  insertion order.\<close>

definition uniq :: "'a list \<Rightarrow> 'a list" where
  "uniq xs = foldl (\<lambda>acc x. if x \<in> set acc then acc else acc @ [x]) [] xs"

section \<open>Domain validation (\<open>crawl.ts\<close>)\<close>

text \<open>The two \<open>Set\<close>s of known top-level domains, in the order the source lists them.\<close>

definition VALID_TLDS :: "string list" where
  "VALID_TLDS = [
    ''com'', ''org'', ''net'', ''edu'', ''gov'', ''mil'', ''int'', ''biz'', ''info'',
    ''pro'', ''name'', ''mobi'', ''app'', ''dev'', ''io'', ''co'', ''ai'', ''tech'',
    ''online'', ''site'', ''website'', ''web'', ''blog'', ''shop'', ''store'', ''cloud'',
    ''digital'', ''media'', ''agency'', ''studio'', ''design'', ''solutions'', ''services'',
    ''consulting'', ''software'', ''systems'', ''group'', ''team'', ''company'',
    ''business'', ''enterprise'', ''global'', ''world'', ''international'', ''network'',
    ''marketing'', ''email'', ''support'', ''clinic'', ''dental'', ''health'',
    ''healthcare'', ''medical'', ''hospital'', ''doctor'', ''law'', ''legal'', ''attorney'',
    ''lawyer'', ''accountant'', ''finance'', ''financial'', ''insurance'', ''bank'',
    ''capital'', ''fund'', ''invest'', ''money'', ''credit'', ''realty'', ''property'',
    ''properties'', ''estate'', ''house'', ''homes'', ''housing'', ''auto'', ''car'',
    ''cars'', ''bike'', ''travel'', ''flights'', ''hotel'', ''vacation'', ''restaurant'',
    ''cafe'', ''pizza'', ''food'', ''kitchen'', ''catering'', ''bar'', ''fitness'',
    ''yoga'', ''gym'', ''training'', ''coach'', ''academy'', ''education'', ''school'',
    ''photography'', ''photo'', ''gallery'', ''art'', ''music'', ''video'', ''film'',
    ''tv'', ''news'', ''press'', ''report'', ''review'', ''guide'', ''tips'', ''how'',
    ''wiki'', ''xyz'', ''top'', ''icu'', ''vip'', ''club'', ''live'', ''rocks'', ''fun'',
    ''zone'', ''space'', ''link'', ''click'', ''page'', ''one'', ''plus'', ''social'',
    ''chat'', ''community'', ''forum'', ''uk'', ''us'', ''ca'', ''au'', ''nz'', ''de'',
    ''fr'', ''it'', ''es'', ''nl'', ''be'', ''ch'', ''at'', ''se'', ''no'', ''dk'', ''fi'',
    ''pl'', ''cz'', ''ru'', ''ua'', ''jp'', ''cn'', ''kr'', ''in'', ''sg'', ''hk'', ''tw'',
    ''my'', ''ph'', ''th'', ''vn'', ''id'', ''br'', ''mx'', ''ar'', ''cl'', ''co'', ''pe'',
    ''za'', ''ae'', ''il'', ''tr'', ''ie'', ''pt'', ''gr'', ''hu'', ''ro'', ''bg'', ''hr'',
    ''sk'', ''si'', ''ee'', ''lv'', ''lt'', ''is'', ''lu'', ''mt'', ''cy'']"

definition MULTI_PART_TLDS :: "string list" where
  "MULTI_PART_TLDS = [
    ''co.uk'', ''org.uk'', ''me.uk'', ''ltd.uk'', ''plc.uk'', ''ac.uk'', ''gov.uk'',
    ''nhs.uk'', ''com.au'', ''net.au'', ''org.au'', ''edu.au'', ''gov.au'', ''asn.au'',
    ''id.au'', ''co.nz'', ''net.nz'', ''org.nz'', ''govt.nz'', ''ac.nz'', ''school.nz'',
    ''geek.nz'', ''com.br'', ''net.br'', ''org.br'', ''gov.br'', ''edu.br'', ''co.za'',
    ''net.za'', ''org.za'', ''gov.za'', ''edu.za'', ''com.mx'', ''net.mx'', ''org.mx'',
    ''gob.mx'', ''edu.mx'', ''co.jp'', ''ne.jp'', ''or.jp'', ''ac.jp'', ''go.jp'',
    ''com.cn'', ''net.cn'', ''org.cn'', ''gov.cn'', ''edu.cn'', ''co.in'', ''net.in'',
    ''org.in'', ''gov.in'', ''ac.in'', ''edu.in'', ''com.sg'', ''net.sg'', ''org.sg'',
    ''gov.sg'', ''edu.sg'', ''com.hk'', ''net.hk'', ''org.hk'', ''gov.hk'', ''edu.hk'',
    ''co.kr'', ''ne.kr'', ''or.kr'', ''go.kr'', ''ac.kr'', ''com.tw'', ''net.tw'',
    ''org.tw'', ''gov.tw'', ''edu.tw'', ''co.th'', ''in.th'', ''ac.th'', ''go.th'',
    ''or.th'', ''com.my'', ''net.my'', ''org.my'', ''gov.my'', ''edu.my'', ''com.ph'',
    ''net.ph'', ''org.ph'', ''gov.ph'', ''edu.ph'', ''co.id'', ''web.id'', ''or.id'',
    ''go.id'', ''ac.id'', ''com.vn'', ''net.vn'', ''org.vn'', ''gov.vn'', ''edu.vn'',
    ''com.ar'', ''net.ar'', ''org.ar'', ''gob.ar'', ''edu.ar'', ''com.co'', ''net.co'',
    ''org.co'', ''gov.co'', ''edu.co'', ''co.il'', ''net.il'', ''org.il'', ''gov.il'',
    ''ac.il'', ''com.tr'', ''net.tr'', ''org.tr'', ''gov.tr'', ''edu.tr'', ''co.ae'',
    ''net.ae'', ''org.ae'', ''gov.ae'', ''ac.ae'', ''com.ua'', ''net.ua'', ''org.ua'',
    ''gov.ua'', ''edu.ua'', ''com.pl'', ''net.pl'', ''org.pl'', ''gov.pl'', ''edu.pl'',
    ''co.de'', ''com.de'', ''com.es'', ''org.es'', ''gob.es'', ''edu.es'', ''com.fr'',
    ''asso.fr'', ''gouv.fr'', ''co.it'', ''com.it'', ''com.pt'', ''org.pt'', ''gov.pt'',
    ''edu.pt'', ''com.nl'', ''co.nl'', ''com.be'', ''co.be'', ''co.at'', ''or.at'',
    ''ac.at'', ''co.ch'', ''com.ch'', ''co.se'', ''com.se'', ''co.no'', ''com.no'',
    ''co.dk'', ''com.dk'', ''co.fi'', ''com.fi'', ''co.ie'', ''com.ie'', ''co.gr'',
    ''com.gr'', ''co.hu'', ''com.hu'', ''co.ro'', ''com.ro'', ''co.cz'', ''com.cz'',
    ''eu.com'', ''us.com'', ''uk.com'', ''de.com'', ''jpn.com'', ''br.com'', ''cn.com'']"

record DomainValidationResult =
  isValid :: bool
  domain :: string
  tld :: string
  error :: "string option"

text \<open>The regular expressions of \<open>validateDomain\<close>:
  \<^verbatim>\<open>/^https?:\/\//\<close>, \<^verbatim>\<open>/^www\./\<close>,
  \<^verbatim>\<open>/^[a-z0-9]([a-z0-9-]*[a-z0-9])?(\.[a-z0-9]([a-z0-9-]*[a-z0-9])?)*\.[a-z]{2,}$/\<close>,
  \<^verbatim>\<open>/^[a-z0-9.-]+\.[a-z]{2,}$/\<close>, \<^verbatim>\<open>/\.\./\<close>, \<^verbatim>\<open>/--/\<close> and
  \<^verbatim>\<open>/^[a-z]+$/\<close>; each \<open>^\<close> is the use of \<open>testStart\<close> or \<open>removeStart\<close>.\<close>

definition protocolRx :: rx where
  "protocolRx = Seq (Lit ''http'') (Seq (Opt (Chr CHR ''s'')) (Lit ''://''))"

definition wwwRx :: rx where
  "wwwRx = Lit ''www.''"

definition alnum :: "char \<Rightarrow> bool" where
  "alnum c = (az c \<or> digit c)"

definition alnumHyphen :: "char \<Rightarrow> bool" where
  "alnumHyphen c = (az c \<or> digit c \<or> c = CHR ''-'')"

definition labelRx :: rx where
  "labelRx = Seq (Cls alnum) (Opt (Seq (Star (Cls alnumHyphen)) (Cls alnum)))"

definition domainRegex :: rx where
  "domainRegex =
     Seq labelRx (Seq (Star (Seq (Chr CHR ''.'') labelRx))
       (Seq (Chr CHR ''.'') (Seq (AtLeast 2 (Cls az)) Eos)))"

definition lenientRegex :: rx where
  "lenientRegex =
     Seq (Plus (Cls (\<lambda>c. az c \<or> digit c \<or> c = CHR ''.'' \<or> c = CHR ''-'')))
       (Seq (Chr CHR ''.'') (Seq (AtLeast 2 (Cls az)) Eos))"

definition lettersRx :: rx where
  "lettersRx = Seq (Plus (Cls az)) Eos"

text \<open>The normalisation at the head of \<open>validateDomain\<close>: trim, lower-case, remove the
  protocol, remove one \<open>www.\<close>, cut at the first \<open>/\<close>, \<open>?\<close>, \<open>#\<close> and \<open>:\<close>.\<close>

definition cleanInput :: "string \<Rightarrow> string" where
  "cleanInput input =
     (let cleaned = toLowerCase (trim input);
          cleaned = removeStart protocolRx cleaned;
          cleaned = removeStart wwwRx cleaned;
          cleaned = hd (splitChar CHR ''#'' (hd (splitChar CHR ''?'' (hd (splitChar CHR ''/'' cleaned)))));
          cleaned = hd (splitChar CHR '':'' cleaned)
      in cleaned)"

text \<open>The characters at which the normalisation cuts.\<close>

definition special :: "char set" where
  "special = {CHR ''/'', CHR ''?'', CHR ''#'', CHR '':''}"

definition validateDomain :: "string \<Rightarrow> DomainValidationResult" where
  "validateDomain input =
     (let cleaned = cleanInput input in
      if cleaned = [] \<or> length cleaned < 3 then
        \<lparr>isValid = False, domain = cleaned, tld = [], error = Some ''Domain too short''\<rparr>
      else if \<not> testStart domainRegex cleaned \<and> \<not> testStart lenientRegex cleaned then
        \<lparr>isValid = False, domain = cleaned, tld = [], error = Some ''Invalid domain format''\<rparr>
      else if test (Lit ''..'') cleaned \<or> test (Lit ''--'') cleaned then
        \<lparr>isValid = False, domain = cleaned, tld = [],
         error = Some ''Invalid domain format (consecutive dots or hyphens)''\<rparr>
      else if startsWith cleaned ''-'' \<or> endsWith cleaned ''-'' then
        \<lparr>isValid = False, domain = cleaned, tld = [],
         error = Some ''Domain cannot start or end with hyphen''\<rparr>
      else
        (let parts = splitChar CHR ''.'' cleaned in
         if length parts < 2 then
           \<lparr>isValid = False, domain = cleaned, tld = [], error = Some ''No TLD found''\<rparr>
         else
           (let possibleMultiTld = parts ! (length parts - 2) @ ''.'' @ parts ! (length parts - 1) in
            if 3 \<le> length parts \<and> possibleMultiTld \<in> set MULTI_PART_TLDS then
              \<lparr>isValid = True, domain = cleaned, tld = possibleMultiTld, error = None\<rparr>
            else
              (let tld = parts ! (length parts - 1) in
               if tld \<in> set VALID_TLDS then
                 \<lparr>isValid = True, domain = cleaned, tld = tld, error = None\<rparr>
               else if 2 \<le> length tld \<and> length tld \<le> 10 \<and> testStart lettersRx tld then
                 \<lparr>isValid = True, domain = cleaned, tld = tld, error = None\<rparr>
               else
                 \<lparr>isValid = False, domain = cleaned, tld = tld,
                  error = Some (''Invalid or unrecognized TLD: .'' @ tld)\<rparr>))))"

section \<open>Email extraction and ranking (\<open>emailExtractor.ts\<close>)\<close>

text \<open>\<^verbatim>\<open>/[a-zA-Z0-9._%+-]+@[a-zA-Z0-9.-]+\.[a-zA-Z]{2,}/g\<close> and its anchored form
  \<^verbatim>\<open>/^[a-zA-Z0-9._%+-]+@[a-zA-Z0-9.-]+\.[a-zA-Z]{2,}$/\<close>.\<close>

definition localClass :: "char \<Rightarrow> bool" where
  "localClass c = (az c \<or> AZ c \<or> digit c \<or> c \<in> set ''._%+-'')"

definition hostClass :: "char \<Rightarrow> bool" where
  "hostClass c = (az c \<or> AZ c \<or> digit c \<or> c \<in> set ''.-'')"

definition letter :: "char \<Rightarrow> bool" where
  "letter c = (az c \<or> AZ c)"

definition emailPattern :: rx where
  "emailPattern =
     Seq (Plus (Cls localClass)) (Seq (Chr CHR ''@'')
       (Seq (Plus (Cls hostClass)) (Seq (Chr CHR ''.'') (AtLeast 2 (Cls letter)))))"

definition strictPattern :: rx where
  "strictPattern = Seq emailPattern Eos"

definition genericPrefixes :: "string list" where
  "genericPrefixes = [
     ''noreply'', ''no-reply'', ''donotreply'', ''do-not-reply'',
     ''mailer-daemon'', ''postmaster'', ''webmaster'',
     ''example'', ''test'', ''demo'', ''sample'']"

definition isGenericEmail :: "string \<Rightarrow> bool" where
  "isGenericEmail email =
     (let localPart = toLowerCase (hd (splitChar CHR ''@'' email))
      in list_ex (\<lambda>prefix. includesStr localPart prefix) genericPrefixes)"

definition isValidEmailFormat :: "string \<Rightarrow> bool" where
  "isValidEmailFormat email =
     (if \<not> testStart strictPattern email then False
      else if length email > 254 then False
      else (let localPart = hd (splitChar CHR ''@'' email) in
            if length localPart > 64 then False else True))"

definition extractEmailsFromContent :: "string \<Rightarrow> string list" where
  "extractEmailsFromContent content =
     (let matches = matchAll emailPattern content;
          uniqueEmails = filter isValidEmailFormat
                           (filter (\<lambda>email. \<not> isGenericEmail email) (uniq matches))
      in uniqueEmails)"

text \<open>A \<open>TypeError\<close> is what reading a property of \<open>undefined\<close> throws.\<close>

datatype jsError = TypeError

text \<open>\<^verbatim>\<open>/\.[^.]+$/\<close>, \<^verbatim>\<open>/^[a-z]+\.[a-z]+$/\<close> and \<^verbatim>\<open>/^[a-z]{4,12}$/\<close>.\<close>

definition lastLabelRx :: rx where
  "lastLabelRx = Seq (Chr CHR ''.'') (Seq (Plus (Cls (\<lambda>c. c \<noteq> CHR ''.''))) Eos)"

definition firstLastRx :: rx where
  "firstLastRx = Seq (Plus (Cls az)) (Seq (Chr CHR ''.'') (Seq (Plus (Cls az)) Eos))"

definition singleWordRx :: rx where
  "singleWordRx = Seq (Between 4 12 (Cls az)) Eos"

definition personalPatterns :: "string list" where
  "personalPatterns = [''hello'', ''hi'', ''info'', ''contact'', ''sales'', ''team'']"

text \<open>\<open>calculateEmailScore\<close>: \<open>emailLower.split('@')[1]\<close> is \<open>undefined\<close> when the address
  has no \<open>@\<close>, and \<open>emailDomain.includes\<close> then throws.  The parameter \<open>domain\<close> of the
  source is \<open>domain'\<close> here and in \<open>rankEmails\<close>.\<close>

definition calculateEmailScore :: "string \<Rightarrow> string \<Rightarrow> jsError + nat" where
  "calculateEmailScore email domain' =
     (let emailLower = toLowerCase email;
          parts = splitChar CHR ''@'' emailLower;
          localPart = hd parts
      in if length parts < 2 then Inl TypeError
         else
           (let emailDomain = parts ! 1;
                score = 0;
                score = (if includesStr emailDomain domain'
                            \<or> includesStr domain' (removeFirst lastLabelRx emailDomain)
                         then score + 50 else score);
                score = (if list_ex (\<lambda>p. includesStr localPart p) personalPatterns
                         then score + 20 else score);
                score = (if length localPart < 15 then score + 10 else score);
                score = (if testStart firstLastRx localPart \<or> testStart singleWordRx localPart
                         then score + 15 else score)
            in Inr score))"

text \<open>\<open>xs.map(f)\<close> for an \<open>f\<close> that may throw: the first exception ends the call.\<close>

fun mapE :: "('a \<Rightarrow> 'e + 'b) \<Rightarrow> 'a list \<Rightarrow> 'e + 'b list" where
  "mapE f [] = Inr []"
| "mapE f (x # xs) =
     (case f x of Inl e \<Rightarrow> Inl e
      | Inr y \<Rightarrow> (case mapE f xs of Inl e \<Rightarrow> Inl e | Inr ys \<Rightarrow> Inr (y # ys)))"

text \<open>\<open>rankEmails\<close>.  \<open>Array.prototype.sort\<close> is stable; with the comparator
  \<open>(a, b) => b.score - a.score\<close> it orders by descending score, which is the stable
  insertion sort on the negated score.\<close>

definition rankEmails :: "string list \<Rightarrow> string \<Rightarrow> jsError + string list" where
  "rankEmails emails domain' =
     (let domainBase = toLowerCase (removeStart wwwRx domain') in
      case mapE (\<lambda>email. case calculateEmailScore email domainBase of
                            Inl e \<Rightarrow> Inl e | Inr score \<Rightarrow> Inr (email, score)) emails of
        Inl e \<Rightarrow> Inl e
      | Inr scored \<Rightarrow> Inr (map fst (sort_key (\<lambda>item. - int (snd item)) scored)))"

text \<open>The score as a number, and the two parts of a lower-cased address that
  \<open>calculateEmailScore\<close> reads: the text before the first \<open>@\<close> and the text between the
  first and the second.\<close>

definition scoreOf :: "string \<Rightarrow> string \<Rightarrow> nat" where
  "scoreOf e d = (case calculateEmailScore e d of Inl _ \<Rightarrow> 0 | Inr n \<Rightarrow> n)"

definition localPartOf :: "string \<Rightarrow> string" where
  "localPartOf e = takeWhile (\<lambda>c. c \<noteq> CHR ''@'') (toLowerCase e)"

definition emailDomainOf :: "string \<Rightarrow> string" where
  "emailDomainOf e =
     takeWhile (\<lambda>c. c \<noteq> CHR ''@'') (tl (dropWhile (\<lambda>c. c \<noteq> CHR ''@'') (toLowerCase e)))"

section \<open>Icebreaker composer (\<open>icebreakerGenerator.ts\<close>)\<close>

text \<open>\<^verbatim>\<open>/\n\n+/\<close>.\<close>

definition paragraphBreak :: rx where
  "paragraphBreak = Seq (Chr CHR 0x0A) (Plus (Chr CHR 0x0A))"

definition maxLength :: nat where
  "maxLength = 3000"

text \<open>The \<open>for\<close> loop of \<open>extractCompanyInsights\<close>, with its \<open>break\<close>.\<close>

fun accumulate :: "string \<Rightarrow> string list \<Rightarrow> string" where
  "accumulate trimmedContent [] = trimmedContent"
| "accumulate trimmedContent (para # paragraphs) =
     (if length (trimmedContent @ para) > maxLength then trimmedContent
      else accumulate (trimmedContent @ para @ [CHR 0x0A, CHR 0x0A]) paragraphs)"

definition extractCompanyInsights :: "string \<Rightarrow> string" where
  "extractCompanyInsights content =
     (let trimmedContent =
            (if length content > maxLength then
               (let paragraphs = splitRx paragraphBreak content;
                    trimmedContent = accumulate [] paragraphs
                in if length trimmedContent = 0 then take maxLength content else trimmedContent)
             else content)
      in trim trimmedContent)"

text \<open>Whole paragraphs, each followed by the blank line the loop appends.\<close>

definition joinParagraphs :: "string list \<Rightarrow> string" where
  "joinParagraphs ps = concat (map (\<lambda>p. p @ [CHR 0x0A, CHR 0x0A]) ps)"

section \<open>Leads and statistics (\<open>types.ts\<close>, \<open>csvProcessor.ts\<close>)\<close>

type_synonym DomainValidation = DomainValidationResult

datatype EnrichmentStatus = Pending | Processing | Completed | Failed | Skipped

text \<open>An optional field is an \<open>option\<close>; \<open>extraFields\<close> is an object whose keys keep their
  insertion order, an association list.\<close>

record Lead =
  website :: string
  company :: "string option"
  name :: "string option"
  extraFields :: "(string \<times> string) list option"

record EnrichedLead = Lead +
  email :: "string option"
  icebreaker :: "string option"
  enrichmentStatus :: EnrichmentStatus
  errorMessage :: "string option"
  domainValidation :: "DomainValidation option"

text \<open>Truthiness of an optional string, and of \<open>l.domainValidation?.isValid\<close>.\<close>

definition truthy :: "string option \<Rightarrow> bool" where
  "truthy v = (case v of None \<Rightarrow> False | Some s \<Rightarrow> s \<noteq> [])"

definition hasValidDomain :: "'a EnrichedLead_scheme \<Rightarrow> bool" where
  "hasValidDomain l = (case domainValidation l of None \<Rightarrow> False | Some v \<Rightarrow> isValid v)"

record EnrichmentStats =
  total :: nat
  pending :: nat
  processing :: nat
  completed :: nat
  failed :: nat
  skipped :: nat
  withEmail :: nat
  withIcebreaker :: nat
  validDomains :: nat
  invalidDomains :: nat

definition getEnrichmentStats :: "EnrichedLead list \<Rightarrow> EnrichmentStats" where
  "getEnrichmentStats leads = \<lparr>
     total = length leads,
     pending = length (filter (\<lambda>l. enrichmentStatus l = Pending) leads),
     processing = length (filter (\<lambda>l. enrichmentStatus l = Processing) leads),
     completed = length (filter (\<lambda>l. enrichmentStatus l = Completed) leads),
     failed = length (filter (\<lambda>l. enrichmentStatus l = Failed) leads),
     skipped = length (filter (\<lambda>l. enrichmentStatus l = Skipped) leads),
     withEmail = length (filter (\<lambda>l. truthy (email l)) leads),
     withIcebreaker = length (filter (\<lambda>l. truthy (icebreaker l)) leads),
     validDomains = length (filter (\<lambda>l. hasValidDomain l) leads),
     invalidDomains = length (filter (\<lambda>l. \<not> hasValidDomain l) leads)\<rparr>"

section \<open>CSV ingestion and export (\<open>csvProcessor.ts\<close>)\<close>




















section \<open>Enrichment pipeline (\<open>enrichment.ts\<close>)\<close>

subsection \<open>Data\<close>

text \<open>The interfaces of \<open>enrichment.ts\<close>.  Field names that several interfaces share
  (\<open>success\<close>, \<open>error\<close>, \<open>inputTokens\<close>, \<open>outputTokens\<close>) carry the name of their interface
  here, since a field name is a constant of the theory.\<close>

record Usage =
  usageInputTokens :: nat
  usageOutputTokens :: nat
  scrapedPages :: nat

datatype Stage = Scraping | Extracting | IcebreakerStage

record EnrichmentProgress =
  stage :: Stage
  currentIndex :: nat
  totalCount :: nat
  currentLead :: string
  usage :: Usage

record ScrapeResult =
  success :: bool
  url :: string
  markdown :: "string option"
  title :: "string option"
  description :: "string option"
  scrapeError :: "string option"

datatype Confidence = High | Medium | Low

record EmailExtractionResult =
  emailSuccess :: bool
  emails :: "string list"
  primaryEmail :: "string option"
  confidence :: Confidence
  inputTokens :: nat
  outputTokens :: nat
  emailError :: "string option"

datatype Tone = Professional | Casual | Friendly

record IcebreakerResult =
  icebreakerSuccess :: bool
  icebreakerText :: string
  icebreakerInputTokens :: nat
  icebreakerOutputTokens :: nat
  icebreakerError :: "string option"

record EnrichmentResult =
  lead :: EnrichedLead
  scrapeResult :: "ScrapeResult option"
  emailResult :: "EmailExtractionResult option"
  icebreakerResult :: "IcebreakerResult option"

record EnrichmentConfig =
  maxConcurrency :: nat
  retryAttempts :: nat
  includeIcebreaker :: bool
  icebreakerTone :: Tone

text \<open>\<open>DEFAULT_CONFIG\<close> of \<open>types.ts\<close>.\<close>

definition DEFAULT_CONFIG :: EnrichmentConfig where
  "DEFAULT_CONFIG = \<lparr>maxConcurrency = 3, retryAttempts = 2, includeIcebreaker = True,
     icebreakerTone = Professional\<rparr>"

record EnrichOptions =
  generateIcebreakerOpt :: bool
  icebreakerToneOpt :: "Tone option"

subsection \<open>The backend and the scheduler\<close>

text \<open>
  The three \<open>fetch\<close> calls go to services outside the program.  A service answers from
  a state of the outside world \<open>'w\<close>, which it may change; its answer is the parsed JSON, or
  \<open>Inl message\<close> when \<open>fetch\<close> or \<open>response.json()\<close> rejects.  \<open>ready\<close> is
  \<open>isEnrichmentReady()\<close>, constant during a run.  \<open>hostname\<close> is the platform's URL parser:
  the \<open>hostname\<close> of \<open>new URL(s)\<close>, \<open>None\<close> when the constructor throws.  \<open>pick\<close> says which
  of the suspended tasks of a batch is resumed next, that is, whose response arrives
  first; any function is allowed, so a property proved for every \<open>env\<close> holds for every
  interleaving.
\<close>

record 'w env =
  ready :: bool
  hostname :: "string \<Rightarrow> string option"
  scrapeService :: "string \<Rightarrow> 'w \<Rightarrow> (string + ScrapeResult) \<times> 'w"
  extractService :: "string \<Rightarrow> string \<Rightarrow> 'w \<Rightarrow> (string + EmailExtractionResult) \<times> 'w"
  icebreakerService ::
    "string \<Rightarrow> string option \<Rightarrow> string \<Rightarrow> Tone \<Rightarrow> 'w \<Rightarrow> (string + IcebreakerResult) \<times> 'w"
  pick :: "'w \<Rightarrow> nat"

datatype request =
    ScrapeRequest string
  | ExtractEmailsRequest string string
  | GenerateIcebreakerRequest string "string option" string Tone

text \<open>What a run does that can be seen from outside, each entry with the index (among the
  valid leads) of the lead whose task did it: a call of \<open>onProgress\<close> with its two
  arguments, a \<open>fetch\<close> being sent, and its response arriving.\<close>

datatype eventKind =
    OnProgress EnrichmentProgress EnrichmentResult
  | FetchSent request
  | FetchSettled

type_synonym event = "nat \<times> eventKind"

text \<open>The state threaded through phase 1: the outside world, the shared \<open>usage\<close> object,
  the events so far, and the number of batches started.\<close>

record 'w runState =
  world :: 'w
  usageAcc :: Usage
  trace :: "event list"
  batchCount :: nat

subsection \<open>URL helpers (\<open>crawl.ts\<close>)\<close>

text \<open>\<^verbatim>\<open>/\/+$/\<close> and \<^verbatim>\<open>/\/$/\<close>.\<close>

definition trailingSlashes :: rx where
  "trailingSlashes = Seq (Plus (Chr CHR ''/'')) Eos"

definition trailingSlash :: rx where
  "trailingSlash = Seq (Chr CHR ''/'') Eos"

definition normalizeUrl :: "string \<Rightarrow> string" where
  "normalizeUrl u =
     (let normalized = toLowerCase (trim u);
          normalized = removeFirst trailingSlashes normalized
      in if \<not> startsWith normalized ''http://'' \<and> \<not> startsWith normalized ''https://''
         then ''https://'' @ normalized else normalized)"

definition extractDomain :: "'w env \<Rightarrow> string \<Rightarrow> string" where
  "extractDomain env u =
     (case hostname env (normalizeUrl u) of
        Some host \<Rightarrow> removeStart wwwRx host
      | None \<Rightarrow> u)"

subsection \<open>One lead: \<open>scrapeForContact\<close> and \<open>enrichLead\<close> as a task\<close>

text \<open>
  An \<open>async\<close> function runs until it awaits a \<open>fetch\<close>, and goes on when the response is
  there.  The task of a lead is the callback of \<open>batch.map\<close> in \<open>findEmailsForLeads\<close>; its
  phase says at which \<open>await\<close> it is suspended and holds the local variables that are live
  there:
  \<^item> \<open>AwaitMainScrape\<close>: in \<open>scrapeForContact\<close>, at \<open>await scrapeUrl(baseUrl)\<close>;
  \<^item> \<open>AwaitContactScrape contactUrl paths mainResult\<close>: in the loop of
    \<open>scrapeForContact\<close>, at \<open>await scrapeUrl(contactUrl)\<close>, with \<open>paths\<close> the paths still to
    try after this one;
  \<^item> \<open>AwaitExtract scrapeResult\<close>: in \<open>enrichLead\<close>, at \<open>await extractEmails(...)\<close>;
  \<^item> \<open>AwaitIcebreaker scrapeResult emailResult\<close>: at \<open>await generateIcebreaker(...)\<close>;
  \<^item> \<open>Returning result\<close>: \<open>enrichLead\<close> has returned before any \<open>fetch\<close> was sent, and the
    callback has not yet gone on;
  \<^item> \<open>Resolved result\<close>: the callback has returned \<open>result\<close>.
\<close>

datatype phase =
    AwaitMainScrape
  | AwaitContactScrape string "string list" ScrapeResult
  | AwaitExtract ScrapeResult
  | AwaitIcebreaker ScrapeResult EmailExtractionResult
  | Returning EnrichmentResult
  | Resolved EnrichmentResult

record task =
  taskLead :: EnrichedLead
  globalIndex :: nat
  taskTotal :: nat
  taskOptions :: EnrichOptions
  taskPhase :: phase

definition containsEmail :: "string \<Rightarrow> bool" where
  "containsEmail content = test emailPattern content"

definition contactPaths :: "string list" where
  "contactPaths = [''/contact'', ''/contact-us'', ''/about'']"

text \<open>The test \<open>r.success && r.markdown && containsEmail(r.markdown)\<close>, and
  \<open>r.markdown\<close> where it is known to be a string.\<close>

definition hasEmail :: "ScrapeResult \<Rightarrow> bool" where
  "hasEmail r = (case markdown r of
                   None \<Rightarrow> False
                 | Some md \<Rightarrow> success r \<and> md \<noteq> [] \<and> containsEmail md)"

definition markdownOf :: "ScrapeResult \<Rightarrow> string" where
  "markdownOf r = (case markdown r of None \<Rightarrow> [] | Some md \<Rightarrow> md)"

definition logEvent :: "nat \<Rightarrow> eventKind \<Rightarrow> 'w runState \<Rightarrow> 'w runState" where
  "logEvent i e st = st\<lparr>trace := trace st @ [(i, e)]\<rparr>"

text \<open>The result object of \<open>enrichLead\<close> at its \<open>return\<close> statements: skipped, failed (with
  what has been stored in \<open>result\<close> so far), completed.\<close>

definition skippedResult :: "EnrichedLead \<Rightarrow> EnrichmentResult" where
  "skippedResult l =
     \<lparr>lead = l\<lparr>enrichmentStatus := Skipped\<rparr>, scrapeResult = None, emailResult = None,
      icebreakerResult = None\<rparr>"

definition failedResult ::
  "EnrichedLead \<Rightarrow> string \<Rightarrow> ScrapeResult option \<Rightarrow> EmailExtractionResult option
   \<Rightarrow> EnrichmentResult" where
  "failedResult l message sr er =
     \<lparr>lead = l\<lparr>enrichmentStatus := Failed, errorMessage := Some message\<rparr>,
      scrapeResult = sr, emailResult = er, icebreakerResult = None\<rparr>"

text \<open>\<open>result.lead.email = emailResult.primaryEmail\<close> under its guard.\<close>

definition withEmailOf :: "EnrichedLead \<Rightarrow> EmailExtractionResult \<Rightarrow> EnrichedLead" where
  "withEmailOf l er =
     (if emailSuccess er \<and> truthy (primaryEmail er) then l\<lparr>email := primaryEmail er\<rparr> else l)"

definition completedResult ::
  "EnrichedLead \<Rightarrow> ScrapeResult \<Rightarrow> EmailExtractionResult \<Rightarrow> IcebreakerResult option
   \<Rightarrow> EnrichmentResult" where
  "completedResult l sr er ir =
     (let l = withEmailOf l er;
          l = (case ir of
                 Some i \<Rightarrow> if icebreakerSuccess i \<and> icebreakerText i \<noteq> []
                           then l\<lparr>icebreaker := Some (icebreakerText i)\<rparr> else l
               | None \<Rightarrow> l)
      in \<lparr>lead = l\<lparr>enrichmentStatus := Completed\<rparr>, scrapeResult = Some sr,
          emailResult = Some er, icebreakerResult = ir\<rparr>)"

text \<open>The end of the callback: usage is added up, \<open>onProgress\<close> is called the second
  time, and the task is resolved.\<close>

definition finishTask :: "task \<Rightarrow> EnrichmentResult \<Rightarrow> 'w runState \<Rightarrow> task \<times> 'w runState" where
  "finishTask t result st =
     (let u = usageAcc st;
          u = (case emailResult result of
                 Some er \<Rightarrow> u\<lparr>usageInputTokens := usageInputTokens u + inputTokens er,
                              usageOutputTokens := usageOutputTokens u + outputTokens er\<rparr>
               | None \<Rightarrow> u);
          u = (case scrapeResult result of
                 Some sr \<Rightarrow> if success sr then u\<lparr>scrapedPages := scrapedPages u + 1\<rparr> else u
               | None \<Rightarrow> u);
          st = st\<lparr>usageAcc := u\<rparr>;
          st = logEvent (globalIndex t)
                 (OnProgress \<lparr>stage = Extracting, currentIndex = globalIndex t + 1,
                              totalCount = taskTotal t, currentLead = website (taskLead t),
                              usage = u\<rparr> result) st
      in (t\<lparr>taskPhase := Resolved result\<rparr>, st))"

text \<open>\<open>scrapeResult.error || 'Failed to scrape website'\<close>.\<close>

definition scrapeFailureMessage :: "ScrapeResult \<Rightarrow> string" where
  "scrapeFailureMessage sr =
     (if truthy (scrapeError sr) then the (scrapeError sr) else ''Failed to scrape website'')"

text \<open>\<open>enrichLead\<close> after \<open>scrapeForContact\<close> has returned \<open>scrapeResult\<close>: the failure return,
  or the call of \<open>extractEmails\<close>, which throws when the backend is not ready.\<close>

definition afterScrape :: "'w env \<Rightarrow> task \<Rightarrow> ScrapeResult \<Rightarrow> 'w runState \<Rightarrow> task \<times> 'w runState" where
  "afterScrape env t sr st =
     (if \<not> success sr \<or> \<not> truthy (markdown sr) then
        finishTask t (failedResult (taskLead t) (scrapeFailureMessage sr) (Some sr) None) st
      else if \<not> ready env then
        finishTask t (failedResult (taskLead t) ''API not initialized'' (Some sr) None) st
      else
        (t\<lparr>taskPhase := AwaitExtract sr\<rparr>,
         logEvent (globalIndex t)
           (FetchSent (ExtractEmailsRequest (markdownOf sr)
                         (extractDomain env (website (taskLead t))))) st))"

text \<open>The loop of \<open>scrapeForContact\<close> over the contact paths: a \<open>scrapeUrl\<close> that throws
  (backend not ready) is caught and the next path is tried; after the last path the main
  result is returned.\<close>

fun tryContactPaths ::
  "'w env \<Rightarrow> task \<Rightarrow> string list \<Rightarrow> ScrapeResult \<Rightarrow> 'w runState \<Rightarrow> task \<times> 'w runState" where
  "tryContactPaths env t [] mainResult st = afterScrape env t mainResult st"
| "tryContactPaths env t (path # paths) mainResult st =
     (if \<not> ready env then tryContactPaths env t paths mainResult st
      else
        (let contactUrl = removeFirst trailingSlash (website (taskLead t)) @ path in
         (t\<lparr>taskPhase := AwaitContactScrape contactUrl paths mainResult\<rparr>,
          logEvent (globalIndex t) (FetchSent (ScrapeRequest contactUrl)) st)))"

text \<open>The start of the callback, run inside \<open>batch.map\<close>: the first \<open>onProgress\<close>, then
  \<open>enrichLead\<close> up to its first \<open>fetch\<close>.\<close>

definition startTask ::
  "'w env \<Rightarrow> nat \<Rightarrow> EnrichOptions \<Rightarrow> nat \<Rightarrow> EnrichedLead \<Rightarrow> 'w runState \<Rightarrow> task \<times> 'w runState" where
  "startTask env n opts gi l st =
     (let t = \<lparr>taskLead = l, globalIndex = gi, taskTotal = n, taskOptions = opts,
               taskPhase = AwaitMainScrape\<rparr>;
          st = logEvent gi
                 (OnProgress \<lparr>stage = Scraping, currentIndex = gi, totalCount = n,
                              currentLead = website l, usage = usageAcc st\<rparr>
                    \<lparr>lead = l, scrapeResult = None, emailResult = None,
                     icebreakerResult = None\<rparr>) st
      in if \<not> hasValidDomain l then (t\<lparr>taskPhase := Returning (skippedResult l)\<rparr>, st)
         else if \<not> ready env then
           (t\<lparr>taskPhase := Returning (failedResult l ''API not initialized'' None None)\<rparr>, st)
         else (t, logEvent gi (FetchSent (ScrapeRequest (website l))) st))"

definition toneOf :: "EnrichOptions \<Rightarrow> Tone" where
  "toneOf opts = (case icebreakerToneOpt opts of Some tone \<Rightarrow> tone | None \<Rightarrow> Professional)"

text \<open>A suspended task goes on: the response it waits for arrives (the service is asked
  now), and the task runs to its next \<open>fetch\<close> or to its end.  An exception thrown inside
  the \<open>try\<close> block of \<open>enrichLead\<close> ends in its \<open>catch\<close>; one thrown by a contact-page scrape
  ends in the \<open>catch\<close> of the loop.\<close>

definition resumeTask :: "'w env \<Rightarrow> task \<Rightarrow> 'w runState \<Rightarrow> task \<times> 'w runState" where
  "resumeTask env t st =
     (case taskPhase t of
        AwaitMainScrape \<Rightarrow>
          (let (response, w) = scrapeService env (website (taskLead t)) (world st);
               st = logEvent (globalIndex t) FetchSettled (st\<lparr>world := w\<rparr>)
           in case response of
                Inl message \<Rightarrow> finishTask t (failedResult (taskLead t) message None None) st
              | Inr mainResult \<Rightarrow>
                  if hasEmail mainResult then afterScrape env t mainResult st
                  else tryContactPaths env t contactPaths mainResult st)
      | AwaitContactScrape contactUrl paths mainResult \<Rightarrow>
          (let (response, w) = scrapeService env contactUrl (world st);
               st = logEvent (globalIndex t) FetchSettled (st\<lparr>world := w\<rparr>)
           in case response of
                Inl message \<Rightarrow> tryContactPaths env t paths mainResult st
              | Inr result \<Rightarrow>
                  if hasEmail result then afterScrape env t result st
                  else tryContactPaths env t paths mainResult st)
      | AwaitExtract sr \<Rightarrow>
          (let (response, w) = extractService env (markdownOf sr)
                                 (extractDomain env (website (taskLead t))) (world st);
               st = logEvent (globalIndex t) FetchSettled (st\<lparr>world := w\<rparr>)
           in case response of
                Inl message \<Rightarrow> finishTask t (failedResult (taskLead t) message (Some sr) None) st
              | Inr er \<Rightarrow>
                  if generateIcebreakerOpt (taskOptions t) \<and> truthy (markdown sr) then
                    if \<not> ready env then
                      finishTask t (failedResult (withEmailOf (taskLead t) er)
                                      ''API not initialized'' (Some sr) (Some er)) st
                    else
                      (t\<lparr>taskPhase := AwaitIcebreaker sr er\<rparr>,
                       logEvent (globalIndex t)
                         (FetchSent (GenerateIcebreakerRequest (markdownOf sr)
                            (company (taskLead t)) (extractDomain env (website (taskLead t)))
                            (toneOf (taskOptions t)))) st)
                  else finishTask t (completedResult (taskLead t) sr er None) st)
      | AwaitIcebreaker sr er \<Rightarrow>
          (let (response, w) = icebreakerService env (markdownOf sr) (company (taskLead t))
                                 (extractDomain env (website (taskLead t)))
                                 (toneOf (taskOptions t)) (world st);
               st = logEvent (globalIndex t) FetchSettled (st\<lparr>world := w\<rparr>)
           in case response of
                Inl message \<Rightarrow>
                  finishTask t (failedResult (withEmailOf (taskLead t) er) message
                                  (Some sr) (Some er)) st
              | Inr ir \<Rightarrow> finishTask t (completedResult (taskLead t) sr er (Some ir)) st)
      | Returning result \<Rightarrow> finishTask t result st
      | Resolved result \<Rightarrow> (t, st))"

subsection \<open>A batch: \<open>Promise.all(batch.map(...))\<close>\<close>

definition isResolved :: "task \<Rightarrow> bool" where
  "isResolved t = (case taskPhase t of Resolved _ \<Rightarrow> True | _ \<Rightarrow> False)"

definition resolvedResult :: "task \<Rightarrow> EnrichmentResult option" where
  "resolvedResult t = (case taskPhase t of Resolved r \<Rightarrow> Some r | _ \<Rightarrow> None)"

text \<open>How many more times a task can be resumed, at most.\<close>

fun stepsLeft :: "phase \<Rightarrow> nat" where
  "stepsLeft AwaitMainScrape = 4 + length contactPaths"
| "stepsLeft (AwaitContactScrape u paths m) = 3 + length paths"
| "stepsLeft (AwaitExtract sr) = 2"
| "stepsLeft (AwaitIcebreaker sr er) = 1"
| "stepsLeft (Returning r) = 1"
| "stepsLeft (Resolved r) = 0"

text \<open>\<open>batch.map\<close> calls the callback for each lead in turn; each call runs to its first
  \<open>await\<close>.\<close>

fun startTasks ::
  "'w env \<Rightarrow> nat \<Rightarrow> EnrichOptions \<Rightarrow> nat \<Rightarrow> EnrichedLead list \<Rightarrow> 'w runState
   \<Rightarrow> task list \<times> 'w runState" where
  "startTasks env n opts gi [] st = ([], st)"
| "startTasks env n opts gi (l # ls) st =
     (let (t, st) = startTask env n opts gi l st;
          (ts, st) = startTasks env n opts (Suc gi) ls st
      in (t # ts, st))"

lemma finishTask_phase: "taskPhase (fst (finishTask t r st)) = Resolved r"
  by (simp add: finishTask_def Let_def)

lemma afterScrape_steps: "stepsLeft (taskPhase (fst (afterScrape env t sr st))) \<le> 2"
  by (simp add: afterScrape_def finishTask_phase)

lemma tryContactPaths_steps:
  "stepsLeft (taskPhase (fst (tryContactPaths env t paths m st))) < 3 + length paths"
proof (induction paths)
  case Nil
  show ?case using afterScrape_steps[of env t m st] by simp
next
  case (Cons p ps)
  then show ?case by (simp add: Let_def)
qed

lemma afterScrape_lt: "stepsLeft (taskPhase (fst (afterScrape env t sr st))) < 3 + n"
  using afterScrape_steps[of env t sr st] by simp

lemma tryContactPaths_lt:
  "stepsLeft (taskPhase (fst (tryContactPaths env t paths m st))) < 4 + length paths"
  using tryContactPaths_steps[of env t paths m st] by simp

lemma resumeTask_steps:
  assumes "\<not> isResolved t"
  shows "stepsLeft (taskPhase (fst (resumeTask env t st))) < stepsLeft (taskPhase t)"
proof (cases "taskPhase t")
  case AwaitMainScrape
  show ?thesis
    unfolding resumeTask_def AwaitMainScrape
    by (simp add: Let_def finishTask_phase tryContactPaths_lt afterScrape_lt[of _ _ _ _ "Suc (length contactPaths)", simplified]
             split: prod.splits sum.splits)
next
  case (AwaitContactScrape u ps m)
  show ?thesis
    unfolding resumeTask_def AwaitContactScrape
    by (simp add: Let_def tryContactPaths_steps afterScrape_lt split: prod.splits sum.splits)
next
  case (AwaitExtract sr)
  show ?thesis
    unfolding resumeTask_def AwaitExtract
    by (simp add: Let_def finishTask_phase split: prod.splits sum.splits)
next
  case (AwaitIcebreaker sr er)
  show ?thesis
    unfolding resumeTask_def AwaitIcebreaker
    by (simp add: Let_def finishTask_phase split: prod.splits sum.splits)
next
  case (Returning r)
  show ?thesis
    unfolding resumeTask_def Returning by (simp add: finishTask_phase)
next
  case (Resolved r)
  with assms show ?thesis by (simp add: isResolved_def)
qed

text \<open>
  The event loop while \<open>Promise.all\<close> is pending: as long as a task of the batch is not
  resolved, one of them (chosen by \<open>pick\<close>) is resumed.  \<open>Promise.all\<close> resolves when every
  task is.
\<close>

definition pendingTasks :: "task list \<Rightarrow> nat list" where
  "pendingTasks tasks = filter (\<lambda>j. \<not> isResolved (tasks ! j)) [0..<length tasks]"

lemma pendingTasks_pick:
  assumes "pendingTasks tasks \<noteq> []"
  shows "pendingTasks tasks ! (n mod length (pendingTasks tasks)) < length tasks
         \<and> \<not> isResolved (tasks ! (pendingTasks tasks ! (n mod length (pendingTasks tasks))))"
proof -
  let ?p = "pendingTasks tasks"
  have "?p ! (n mod length ?p) \<in> set ?p" using assms by simp
  then show ?thesis by (simp add: pendingTasks_def)
qed

lemma sum_list_update_less:
  "j < length xs \<Longrightarrow> (y::nat) < xs ! j \<Longrightarrow> sum_list (xs[j := y]) < sum_list xs"
  by (induction xs arbitrary: j) (auto split: nat.splits)

function runTasks :: "'w env \<Rightarrow> task list \<Rightarrow> 'w runState \<Rightarrow> task list \<times> 'w runState" where
  "runTasks env tasks st =
     (let pending = pendingTasks tasks in
      if pending = [] then (tasks, st)
      else
        (let j = pending ! (pick env (world st) mod length pending);
             (t, st) = resumeTask env (tasks ! j) st
         in runTasks env (tasks[j := t]) st))"
  by pat_completeness auto

termination
proof (relation "measure (\<lambda>(env, tasks, st). sum_list (map (\<lambda>t. stepsLeft (taskPhase t)) tasks))")
  fix env :: "'w env" and tasks st pending j x t st'
  assume p: "pending = pendingTasks tasks" "pending \<noteq> []"
     and j: "j = pending ! (pick env (world st) mod length pending)"
     and x: "x = resumeTask env (tasks ! j) st" "(t, st') = x"
  from pendingTasks_pick[of tasks "pick env (world st)"] p j
  have jl: "j < length tasks" and nr: "\<not> isResolved (tasks ! j)" by auto
  from x have "t = fst (resumeTask env (tasks ! j) st)" by (metis fst_conv)
  with resumeTask_steps[OF nr, of env st]
  have "stepsLeft (taskPhase t) < stepsLeft (taskPhase (tasks ! j))" by simp
  with jl have "sum_list ((map (\<lambda>t. stepsLeft (taskPhase t)) tasks)[j := stepsLeft (taskPhase t)])
                < sum_list (map (\<lambda>t. stepsLeft (taskPhase t)) tasks)"
    by (intro sum_list_update_less) auto
  then show "((env, tasks[j := t], st'), (env, tasks, st))
        \<in> measure (\<lambda>(env, tasks, st). sum_list (map (\<lambda>t. stepsLeft (taskPhase t)) tasks))"
    by (simp add: map_update)
qed simp

declare runTasks.simps [simp del]

subsection \<open>\<open>findEmailsForLeads\<close>\<close>

text \<open>One turn of the \<open>for\<close> loop: \<open>validLeads.slice(i, i + maxConcurrency)\<close>, the tasks
  started in order, \<open>await Promise.all\<close>, and the results of the batch in the order of its
  leads.\<close>

definition phase1Options :: EnrichOptions where
  "phase1Options = \<lparr>generateIcebreakerOpt = False, icebreakerToneOpt = None\<rparr>"

definition runBatch ::
  "'w env \<Rightarrow> EnrichedLead list \<Rightarrow> nat \<Rightarrow> nat \<Rightarrow> 'w runState
   \<Rightarrow> EnrichmentResult list \<times> 'w runState" where
  "runBatch env validLeads k i st =
     (let batch = take k (drop i validLeads);
          st = st\<lparr>batchCount := batchCount st + 1\<rparr>;
          (tasks, st) = startTasks env (length validLeads) phase1Options i batch st;
          (tasks, st) = runTasks env tasks st
      in (List.map_filter resolvedResult tasks, st))"

text \<open>The loop \<open>for (let i = 0; i < validLeads.length; i += maxConcurrency)\<close>.  With
  \<open>maxConcurrency = 0\<close> it does not end; the result is then \<open>None\<close>.\<close>

partial_function (option) batchLoop ::
  "'w env \<Rightarrow> EnrichedLead list \<Rightarrow> nat \<Rightarrow> nat \<Rightarrow> EnrichmentResult list \<Rightarrow> 'w runState
   \<Rightarrow> (EnrichmentResult list \<times> 'w runState) option" where
  "batchLoop env validLeads k i results st =
     (if i < length validLeads then
        batchLoop env validLeads k (i + k)
          (results @ fst (runBatch env validLeads k i st))
          (snd (runBatch env validLeads k i st))
      else Some (results, st))"

declare batchLoop.simps [code]

definition initialState :: "'w \<Rightarrow> 'w runState" where
  "initialState w =
     \<lparr>world = w,
      usageAcc = \<lparr>usageInputTokens = 0, usageOutputTokens = 0, scrapedPages = 0\<rparr>,
      trace = [], batchCount = 0\<rparr>"

definition findEmailsForLeads ::
  "'w env \<Rightarrow> EnrichedLead list \<Rightarrow> EnrichmentConfig \<Rightarrow> 'w
   \<Rightarrow> (EnrichmentResult list \<times> 'w runState) option" where
  "findEmailsForLeads env leads config w =
     (let validLeads = filter hasValidDomain leads in
      case batchLoop env validLeads (maxConcurrency config) 0 [] (initialState w) of
        None \<Rightarrow> None
      | Some (results, st) \<Rightarrow>
          (let skippedLeads = filter (\<lambda>l. \<not> hasValidDomain l) leads
           in Some (results @ map skippedResult skippedLeads, st)))"

section \<open>Predicates of the verification\<close>

text \<open>A resumed task is still the task of the same lead.\<close>

definition sameTask :: "task \<Rightarrow> task \<Rightarrow> bool" where
  "sameTask t t' \<longleftrightarrow> taskLead t' = taskLead t \<and> globalIndex t' = globalIndex t
     \<and> taskTotal t' = taskTotal t \<and> taskOptions t' = taskOptions t"

text \<open>\<open>stepsFrom st st' I\<close>: from \<open>st\<close> to \<open>st'\<close> the trace has only grown, by events of leads
  with an index in \<open>I\<close>, and no batch has been started.\<close>

definition stepsFrom :: "'w runState \<Rightarrow> 'w runState \<Rightarrow> nat set \<Rightarrow> bool" where
  "stepsFrom st st' I \<longleftrightarrow> batchCount st' = batchCount st
     \<and> (\<exists>evs. trace st' = trace st @ evs \<and> fst ` set evs \<subseteq> I)"

text \<open>The results \<open>enrichLead\<close> can return for a lead: a failure before any scrape result
  (an exception of the main-page scrape), a scrape failure with its message, an exception
  after a successful scrape (of \<open>extractEmails\<close>, or of \<open>generateIcebreaker\<close> with the email
  already stored), completion, and the skip of a lead without a valid domain.\<close>

definition outcomeOK :: "EnrichedLead \<Rightarrow> EnrichmentResult \<Rightarrow> bool" where
  "outcomeOK l r \<longleftrightarrow>
     (\<exists>msg. r = failedResult l msg None None)
   \<or> (\<exists>sr. (\<not> success sr \<or> \<not> truthy (markdown sr))
          \<and> r = failedResult l (scrapeFailureMessage sr) (Some sr) None)
   \<or> (\<exists>sr msg. success sr \<and> truthy (markdown sr) \<and> r = failedResult l msg (Some sr) None)
   \<or> (\<exists>sr er msg. success sr \<and> truthy (markdown sr)
          \<and> r = failedResult (withEmailOf l er) msg (Some sr) (Some er))
   \<or> (\<exists>sr er ir. success sr \<and> truthy (markdown sr) \<and> r = completedResult l sr er ir)
   \<or> (\<not> hasValidDomain l \<and> r = skippedResult l)"

text \<open>What holds of the local variables of a suspended task.\<close>

definition phaseInv :: "EnrichedLead \<Rightarrow> phase \<Rightarrow> bool" where
  "phaseInv l ph =
     (case ph of
        AwaitExtract sr \<Rightarrow> success sr \<and> truthy (markdown sr)
      | AwaitIcebreaker sr er \<Rightarrow> success sr \<and> truthy (markdown sr)
      | Returning r \<Rightarrow> outcomeOK l r
      | Resolved r \<Rightarrow> outcomeOK l r
      | _ \<Rightarrow> True)"

text \<open>The tasks of a batch that begins at index \<open>i\<close>: one per lead, in order.\<close>

definition tasksFor :: "EnrichedLead list \<Rightarrow> nat \<Rightarrow> task list \<Rightarrow> bool" where
  "tasksFor batch i tasks \<longleftrightarrow> length tasks = length batch
     \<and> (\<forall>j<length batch. taskLead (tasks ! j) = batch ! j \<and> globalIndex (tasks ! j) = i + j
            \<and> phaseInv (batch ! j) (taskPhase (tasks ! j)))"


text \<open>The second \<open>onProgress\<close> of the lead with index \<open>i\<close> has been called: its task has
  run to its end.\<close>

definition completionLogged :: "nat \<Rightarrow> 'w runState \<Rightarrow> bool" where
  "completionLogged i st \<longleftrightarrow> (\<exists>p r. (i, OnProgress p r) \<in> set (trace st) \<and> stage p = Extracting)"

section \<open>Sample runs\<close>

text \<open>A backend over a world that counts the requests answered, and picks the task to
  resume by that count, so that the tasks of a batch interleave.  Its scrape service is a
  parameter: every page fails; every page is the same text with an address; or
  \<open>b.io\<close> fails and \<open>c.io\<close> throws.  Its extraction service reports a failure.\<close>

definition sampleLead :: "string \<Rightarrow> EnrichedLead" where
  "sampleLead site =
     \<lparr>website = site, company = None, name = None, extraFields = None, email = None,
      icebreaker = None, enrichmentStatus = Pending, errorMessage = None,
      domainValidation = Some (validateDomain site)\<rparr>"


definition pageScrape :: "string \<Rightarrow> nat \<Rightarrow> (string + ScrapeResult) \<times> nat" where
  "pageScrape u w =
     (Inr \<lparr>success = True, url = u, markdown = Some ''Write to sales@acme.io'', title = None,
           description = None, scrapeError = None\<rparr>, Suc w)"


definition failingExtract ::
  "string \<Rightarrow> string \<Rightarrow> nat \<Rightarrow> (string + EmailExtractionResult) \<times> nat" where
  "failingExtract content d w =
     (Inr \<lparr>emailSuccess = False, emails = [], primaryEmail = None, confidence = Low,
           inputTokens = 0, outputTokens = 0,
           emailError = Some ''Failed to parse AI response''\<rparr>, Suc w)"

definition sampleBackend :: "(string \<Rightarrow> nat \<Rightarrow> (string + ScrapeResult) \<times> nat) \<Rightarrow> nat env" where
  "sampleBackend scrape =
     \<lparr>ready = True, hostname = (\<lambda>u. Some (removeStart protocolRx u)),
      scrapeService = scrape, extractService = failingExtract,
      icebreakerService = (\<lambda>content c d tone w. (Inl ''unused'', w)),
      pick = (\<lambda>w. w)\<rparr>"

definition fourLeads :: "EnrichedLead list" where
  "fourLeads = [sampleLead ''https://a.io'', sampleLead ''not a domain'',
                sampleLead ''https://b.io'', sampleLead ''https://c.io'']"





definition statusAndError :: "EnrichmentResult \<Rightarrow> EnrichmentStatus \<times> string option" where
  "statusAndError r = (enrichmentStatus (lead r), errorMessage (lead r))"

section \<open>Verification\<close>

subsection \<open>Strings\<close>

lemma isSpace_newline: "isSpace (CHR 0x0A)"
  by (simp add: isSpace_def cu_def)

lemma length_trimEnd: "length (trimEnd s) \<le> length s"
  unfolding trimEnd_def by (metis length_dropWhile_le length_rev)

lemma length_trimStart: "length (trimStart s) \<le> length s"
  unfolding trimStart_def by (rule length_dropWhile_le)

lemma length_trim: "length (trim s) \<le> length s"
  unfolding trim_def using length_trimEnd[of "trimStart s"] length_trimStart[of s] by simp

lemma trim_drops_break:
  assumes "isSpace c"
  shows "length (trim (s @ [c, c])) \<le> length s"
proof (cases "\<forall>x\<in>set s. isSpace x")
  case True
  then have "dropWhile isSpace (s @ [c, c]) = []" using assms by simp
  then show ?thesis by (simp add: trim_def trimStart_def trimEnd_def)
next
  case False
  then have "dropWhile isSpace (s @ [c, c]) = dropWhile isSpace s @ [c, c]"
    by (auto simp: dropWhile_append)
  then have "trim (s @ [c, c]) = trimEnd (dropWhile isSpace s)"
    using assms by (simp add: trim_def trimStart_def trimEnd_def)
  then show ?thesis
    using length_trimEnd[of "dropWhile isSpace s"] length_dropWhile_le[of isSpace s] by simp
qed

subsection \<open>C2: idempotence of the normalised domain\<close>

lemma validateDomain_domain: "domain (validateDomain x) = cleanInput x"
  unfolding validateDomain_def Let_def
  by (simp only: if_distrib[where f = domain] DomainValidationResult.simps if_cancel)

lemma splitChar_nonempty: "splitChar c s \<noteq> []"
  by (induction s) (auto split: list.splits)

lemma hd_splitChar: "hd (splitChar c s) = takeWhile (\<lambda>x. x \<noteq> c) s"
  by (induction s) (auto split: list.splits simp: splitChar_nonempty)

lemma startsWith_iff: "startsWith s w \<longleftrightarrow> take (length w) s = w"
  by (induction s w rule: startsWith.induct) auto

lemma ms_Lit: "ms (Lit w) s = (if startsWith s w then [drop (length w) s] else [])"
  by (induction w arbitrary: s) (auto simp: Chr_def split: list.splits)

lemma removeStart_www:
  "removeStart wwwRx s = (if startsWith s ''www.'' then drop 4 s else s)"
proof -
  have l: "length ''www.'' = 4" by simp
  show ?thesis
    unfolding removeStart_def execAt_def wwwRx_def ms_Lit l by simp
qed

lemma startsWith_length: "startsWith s w \<Longrightarrow> length w \<le> length s"
  by (induction s w rule: startsWith.induct) auto

lemma startsWith_set: "startsWith s w \<Longrightarrow> set w \<subseteq> set s"
  by (induction s w rule: startsWith.induct) auto

lemma ms_protocol_colon:
  assumes "t \<in> set (ms protocolRx s)"
  shows "CHR '':'' \<in> set s"
proof -
  from assms obtain u v where u: "u \<in> set (ms (Lit ''http'') s)"
    and v: "v \<in> set (ms (Opt (Chr CHR ''s'')) u)" and t: "t \<in> set (ms (Lit ''://'') v)"
    unfolding protocolRx_def by (auto simp del: Lit.simps)
  from t have "startsWith v ''://''" by (auto simp: ms_Lit split: if_splits simp del: Lit.simps)
  then have "CHR '':'' \<in> set v" by (auto dest: startsWith_set)
  moreover have "suffix v u" "suffix u s" by (rule ms_suffix[OF v], rule ms_suffix[OF u])
  ultimately show ?thesis by (meson set_mono_suffix subsetD)
qed

lemma removeStart_suffix: "suffix (removeStart r s) s"
proof (cases "ms r s")
  case Nil
  then show ?thesis by (simp add: removeStart_def execAt_def)
next
  case (Cons t ts)
  then have "t \<in> set (ms r s)" by simp
  then have "suffix t s" by (rule ms_suffix)
  with Cons show ?thesis by (simp add: removeStart_def execAt_def)
qed

lemma removeStart_protocol_id: "CHR '':'' \<notin> set s \<Longrightarrow> removeStart protocolRx s = s"
  using ms_protocol_colon[of _ s]
  by (cases "ms protocolRx s") (auto simp: removeStart_def execAt_def)

lemma cu_lowerChar: "isUpper c \<Longrightarrow> cu (lowerChar c) = cu c + 32"
  by (auto simp: lowerChar_def isUpper_def cu_def)

lemma lowerChar_not_upper: "\<not> isUpper (lowerChar c)"
proof (cases "isUpper c")
  case True
  from cu_lowerChar[OF this] True show ?thesis by (auto simp: isUpper_def)
next
  case False
  then show ?thesis by (simp add: lowerChar_def)
qed

lemma toLowerCase_id: "\<forall>c\<in>set s. \<not> isUpper c \<Longrightarrow> toLowerCase s = s"
  by (induction s) (auto simp: toLowerCase_def lowerChar_def)

lemma set_trim: "set (trim s) \<subseteq> set s"
  by (auto simp: trim_def trimEnd_def trimStart_def dest!: set_dropWhileD)


lemma set_cleanInput:
  "set (cleanInput x) \<subseteq> set (toLowerCase (trim x)) - special"
proof -
  have "set (removeStart protocolRx (toLowerCase (trim x))) \<subseteq> set (toLowerCase (trim x))"
    by (rule set_mono_suffix[OF removeStart_suffix])
  then show ?thesis
    unfolding cleanInput_def Let_def hd_splitChar removeStart_www special_def
    by (auto dest!: set_takeWhileD in_set_dropD)
qed

lemma cleanInput_lower: "c \<in> set (cleanInput x) \<Longrightarrow> \<not> isUpper c"
  using set_cleanInput[of x] by (auto simp: toLowerCase_def lowerChar_not_upper)

lemma cleanInput_no_special: "c \<in> set (cleanInput x) \<Longrightarrow> c \<notin> special"
  using set_cleanInput[of x] by auto

lemma cleanInput_clean:
  assumes up: "\<forall>c\<in>set d. \<not> isUpper c" and sp: "set d \<inter> special = {}"
  shows "cleanInput d = (if startsWith (trim d) ''www.'' then drop 4 (trim d) else trim d)"
proof -
  have t: "set (trim d) \<subseteq> set d" by (rule set_trim)
  have 1: "toLowerCase (trim d) = trim d" using up t by (intro toLowerCase_id) auto
  have 2: "removeStart protocolRx (trim d) = trim d"
    using sp t by (intro removeStart_protocol_id) (auto simp: special_def)
  have 3: "\<And>c s. c \<notin> set s \<Longrightarrow> takeWhile (\<lambda>x. x \<noteq> c) s = s"
    by (auto simp: takeWhile_eq_all_conv)
  have 4: "\<And>c. c \<in> special \<Longrightarrow> c \<notin> set (drop 4 (trim d))" "\<And>c. c \<in> special \<Longrightarrow> c \<notin> set (trim d)"
    using sp t by (auto dest: in_set_dropD)
  show ?thesis
    unfolding cleanInput_def Let_def hd_splitChar 1 2 removeStart_www
    using 4 by (auto simp: 3 special_def)
qed

lemma dropWhile_same_length: "length (dropWhile P s) = length s \<Longrightarrow> dropWhile P s = s"
proof -
  assume a: "length (dropWhile P s) = length s"
  have e: "takeWhile P s @ dropWhile P s = s" by simp
  have "length (takeWhile P s) + length (dropWhile P s) = length s"
    unfolding length_append[symmetric] by (simp only: e)
  with a have "takeWhile P s = []" by simp
  with e show ?thesis by simp
qed

lemma trim_same_length: "length (trim s) = length s \<Longrightarrow> trim s = s"
proof -
  assume a: "length (trim s) = length s"
  have 1: "length (trim s) \<le> length (dropWhile isSpace s)" 
    unfolding trim_def trimEnd_def trimStart_def
    by (metis length_dropWhile_le length_rev)
  have 2: "length (dropWhile isSpace s) \<le> length s" by (rule length_dropWhile_le)
  from a 1 2 have e: "dropWhile isSpace s = s" by (intro dropWhile_same_length) simp
  with a have "length (dropWhile isSpace (rev s)) = length (rev s)"
    by (simp add: trim_def trimEnd_def trimStart_def)
  then have "dropWhile isSpace (rev s) = rev s" by (rule dropWhile_same_length)
  with e show ?thesis by (simp add: trim_def trimEnd_def trimStart_def)
qed

text \<open>
  C2 (amended).  \<open>validateDomain\<close> applied to its own \<open>domain\<close> field returns that
  field again exactly when the field has no white space at either end and does not begin
  with \<open>www.\<close>: the normalisation trims before it cuts at \<open>/\<close>, \<open>?\<close>, \<open>#\<close>, \<open>:\<close>
  and removes one \<open>www.\<close> only.
\<close>

theorem validateDomain_idempotent_iff:
  "domain (validateDomain (domain (validateDomain x))) = domain (validateDomain x)
   \<longleftrightarrow> trim (domain (validateDomain x)) = domain (validateDomain x)
       \<and> \<not> startsWith (domain (validateDomain x)) ''www.''"
proof -
  define d where "d = cleanInput x"
  have up: "\<forall>c\<in>set d. \<not> isUpper c" and sp: "set d \<inter> special = {}"
    using cleanInput_lower cleanInput_no_special unfolding d_def by auto
  note c = cleanInput_clean[OF up sp]
  have "cleanInput d = d \<longleftrightarrow> trim d = d \<and> \<not> startsWith d ''www.''"
  proof
    assume e: "cleanInput d = d"
    have l: "length (trim d) \<le> length d" by (rule length_trim)
    show "trim d = d \<and> \<not> startsWith d ''www.''"
    proof (cases "startsWith (trim d) ''www.''")
      case True
      then have "4 \<le> length (trim d)" by (auto dest: startsWith_length)
      moreover from True c e have "length d = length (trim d) - 4" by (metis length_drop)
      ultimately show ?thesis using l by simp
    next
      case False
      with c e have "trim d = d" by simp
      with False show ?thesis by simp
    qed
  next
    assume "trim d = d \<and> \<not> startsWith d ''www.''"
    with c show "cleanInput d = d" by simp
  qed
  then show ?thesis by (simp add: validateDomain_domain d_def)
qed

text \<open>
  C2 as stated fails: \<open>www.www.a.com\<close> normalises to \<open>www.a.com\<close>, which normalises to
  \<open>a.com\<close>.
\<close>

theorem validateDomain_not_idempotent:
  "domain (validateDomain (domain (validateDomain ''www.www.a.com'')))
   \<noteq> domain (validateDomain ''www.www.a.com'')"
proof -
  have 1: "cleanInput ''www.www.a.com'' = ''www.a.com''" by code_simp
  have 2: "cleanInput ''www.a.com'' = ''a.com''" by code_simp
  show ?thesis by (simp add: validateDomain_domain 1 2)
qed

theorem validateDomain_idempotent_iff_witness:
  "trim ''acme.io'' = ''acme.io'' \<and> \<not> startsWith ''acme.io'' ''www.''
   \<and> domain (validateDomain ''https://www.Acme.IO/contact'') = ''acme.io''
   \<and> domain (validateDomain (domain (validateDomain ''https://www.Acme.IO/contact''))) = ''acme.io''"
proof -
  have d: "domain (validateDomain ''https://www.Acme.IO/contact'') = ''acme.io''"
    unfolding validateDomain_domain by code_simp
  have t: "trim ''acme.io'' = ''acme.io''" by code_simp
  have w: "\<not> startsWith ''acme.io'' ''www.''" by simp
  from validateDomain_idempotent_iff[of "''https://www.Acme.IO/contact''"] d t w
  show ?thesis by simp
qed

subsection \<open>C10: enrichment statistics\<close>

lemma status_partition:
  "length (filter (\<lambda>l. f l = Pending) xs) + length (filter (\<lambda>l. f l = Processing) xs)
   + length (filter (\<lambda>l. f l = Completed) xs) + length (filter (\<lambda>l. f l = Failed) xs)
   + length (filter (\<lambda>l. f l = Skipped) xs) = length xs"
proof (induction xs)
  case Nil
  show ?case by simp
next
  case (Cons a xs)
  then show ?case by (cases "f a") auto
qed

text \<open>
  C10.  The numbers \<open>getEnrichmentStats\<close> returns partition the leads: the five status
  counts add up to \<open>total\<close>, and so do \<open>validDomains\<close> and \<open>invalidDomains\<close>.
\<close>

theorem getEnrichmentStats_partition:
  "pending (getEnrichmentStats leads) + processing (getEnrichmentStats leads)
     + completed (getEnrichmentStats leads) + failed (getEnrichmentStats leads)
     + skipped (getEnrichmentStats leads) = total (getEnrichmentStats leads)
   \<and> validDomains (getEnrichmentStats leads) + invalidDomains (getEnrichmentStats leads)
       = total (getEnrichmentStats leads)"
  by (simp add: getEnrichmentStats_def status_partition sum_length_filter_compl)

subsection \<open>C9: company insights\<close>

lemma accumulate_prefix:
  "\<exists>k\<le>length ps. accumulate acc ps = acc @ joinParagraphs (take k ps)
      \<and> (\<forall>j<k. length (acc @ joinParagraphs (take j ps) @ ps ! j) \<le> maxLength)
      \<and> (k < length ps \<longrightarrow> maxLength < length (acc @ joinParagraphs (take k ps) @ ps ! k))"
proof (induction ps arbitrary: acc)
  case Nil
  show ?case by (simp add: joinParagraphs_def)
next
  case (Cons p ps)
  show ?case
  proof (cases "length (acc @ p) > maxLength")
    case True
    then show ?thesis by (intro exI[of _ 0]) (simp add: joinParagraphs_def)
  next
    case False
    from Cons.IH[of "acc @ p @ [CHR 0x0A, CHR 0x0A]"] obtain k where k: "k \<le> length ps"
      "accumulate (acc @ p @ [CHR 0x0A, CHR 0x0A]) ps
         = (acc @ p @ [CHR 0x0A, CHR 0x0A]) @ joinParagraphs (take k ps)"
      "\<forall>j<k. length ((acc @ p @ [CHR 0x0A, CHR 0x0A]) @ joinParagraphs (take j ps) @ ps ! j) \<le> maxLength"
      "k < length ps \<longrightarrow> maxLength < length ((acc @ p @ [CHR 0x0A, CHR 0x0A]) @ joinParagraphs (take k ps) @ ps ! k)"
      by blast
    have "\<forall>j<Suc k. length (acc @ joinParagraphs (take j (p # ps)) @ (p # ps) ! j) \<le> maxLength"
    proof (intro allI impI)
      fix j assume "j < Suc k"
      then show "length (acc @ joinParagraphs (take j (p # ps)) @ (p # ps) ! j) \<le> maxLength"
        using False k(3) by (cases j) (auto simp: joinParagraphs_def)
    qed
    with k False show ?thesis
      by (intro exI[of _ "Suc k"]) (auto simp: joinParagraphs_def)
  qed
qed

lemma splitLoop_nonempty: "splitLoop r acc s \<noteq> []"
  by (induction r acc s rule: splitLoop.induct) (auto split: option.splits)

lemma splitRx_nonempty: "s \<noteq> [] \<Longrightarrow> splitRx r s \<noteq> []"
  by (simp add: splitRx_def splitLoop_nonempty)

lemma joinParagraphs_snoc:
  "0 < k \<Longrightarrow> k \<le> length ps \<Longrightarrow>
   joinParagraphs (take k ps) = (joinParagraphs (take (k - 1) ps) @ ps ! (k - 1)) @ [CHR 0x0A, CHR 0x0A]"
  by (cases k) (auto simp: joinParagraphs_def take_Suc_conv_app_nth)

text \<open>
  C9.  \<open>extractCompanyInsights\<close> never returns more than 3000 characters.  Content of at
  most 3000 characters is returned trimmed.  Longer content is split into paragraphs; when
  the first paragraph alone is longer than 3000 characters the result is the first 3000
  characters of the content, trimmed; otherwise it is the first \<open>k \<ge> 1\<close> whole paragraphs,
  each followed by a blank line, trimmed, where \<open>k\<close> is as large as the budget allows: the
  \<open>k\<close> paragraphs fit and the next one, if any, would exceed the budget.
\<close>

theorem extractCompanyInsights_budget:
  "length (extractCompanyInsights content) \<le> 3000
   \<and> (length content \<le> 3000 \<longrightarrow> extractCompanyInsights content = trim content)
   \<and> (3000 < length content \<longrightarrow>
        (let paragraphs = splitRx paragraphBreak content in
           (3000 < length (hd paragraphs)
              \<longrightarrow> extractCompanyInsights content = trim (take 3000 content))
         \<and> (length (hd paragraphs) \<le> 3000
              \<longrightarrow> (\<exists>k. 1 \<le> k \<and> k \<le> length paragraphs
                     \<and> extractCompanyInsights content = trim (joinParagraphs (take k paragraphs))
                     \<and> length (joinParagraphs (take (k - 1) paragraphs) @ paragraphs ! (k - 1)) \<le> 3000
                     \<and> (k < length paragraphs \<longrightarrow>
                           3000 < length (joinParagraphs (take k paragraphs) @ paragraphs ! k))))))"
proof -
  define ps where "ps = splitRx paragraphBreak content"
  obtain k where k: "k \<le> length ps" "accumulate [] ps = joinParagraphs (take k ps)"
    "\<forall>j<k. length (joinParagraphs (take j ps) @ ps ! j) \<le> maxLength"
    "k < length ps \<longrightarrow> maxLength < length (joinParagraphs (take k ps) @ ps ! k)"
    using accumulate_prefix[of ps "[]"] by auto
  have small: "length content \<le> 3000 \<Longrightarrow> extractCompanyInsights content = trim content"
    by (simp add: extractCompanyInsights_def maxLength_def)
  have ne: "3000 < length content \<Longrightarrow> ps \<noteq> []"
    unfolding ps_def by (intro splitRx_nonempty) auto
  have k0: "3000 < length content \<Longrightarrow> (k = 0 \<longleftrightarrow> 3000 < length (hd ps))"
  proof -
    assume "3000 < length content"
    then obtain p qs where p: "ps = p # qs" using ne by (cases ps) auto
    show ?thesis
    proof
      assume "k = 0"
      with k(4) p show "3000 < length (hd ps)" by (simp add: joinParagraphs_def maxLength_def)
    next
      assume a: "3000 < length (hd ps)"
      show "k = 0"
      proof (rule ccontr)
        assume "k \<noteq> 0"
        then have "length (joinParagraphs (take 0 ps) @ ps ! 0) \<le> maxLength" using k(3) by blast
        with a p show False by (simp add: joinParagraphs_def maxLength_def)
      qed
    qed
  qed
  have big0: "3000 < length content \<Longrightarrow> 3000 < length (hd ps)
       \<Longrightarrow> extractCompanyInsights content = trim (take 3000 content)"
    using k0 k(2) by (simp add: extractCompanyInsights_def maxLength_def ps_def Let_def joinParagraphs_def)
  have bigk: "3000 < length content \<Longrightarrow> length (hd ps) \<le> 3000
       \<Longrightarrow> 1 \<le> k \<and> extractCompanyInsights content = trim (joinParagraphs (take k ps))
           \<and> length (joinParagraphs (take (k - 1) ps) @ ps ! (k - 1)) \<le> 3000"
  proof -
    assume a: "3000 < length content" "length (hd ps) \<le> 3000"
    with k0 have kpos: "0 < k" by auto
    then have 1: "length (joinParagraphs (take (k - 1) ps) @ ps ! (k - 1)) \<le> 3000"
      using k(3) by (auto simp: maxLength_def)
    have "joinParagraphs (take k ps) \<noteq> []"
      using joinParagraphs_snoc[OF kpos k(1)] by simp
    then have "extractCompanyInsights content = trim (joinParagraphs (take k ps))"
      using a k(2) by (simp add: extractCompanyInsights_def maxLength_def ps_def[symmetric] Let_def)
    with kpos 1 show ?thesis by simp
  qed
  have bound: "length (extractCompanyInsights content) \<le> 3000"
  proof (cases "length content \<le> 3000")
    case True
    with small length_trim[of content] show ?thesis by simp
  next
    case False
    then have big: "3000 < length content" by simp
    show ?thesis
    proof (cases "3000 < length (hd ps)")
      case True
      with big0[OF big] length_trim[of "take 3000 content"] show ?thesis by simp
    next
      case False
      then have h: "length (hd ps) \<le> 3000" by simp
      from bigk[OF big h] k0[OF big] have kpos: "0 < k"
        and e: "extractCompanyInsights content = trim (joinParagraphs (take k ps))"
        and l: "length (joinParagraphs (take (k - 1) ps) @ ps ! (k - 1)) \<le> 3000" by auto
      have "length (trim (joinParagraphs (take k ps)))
             \<le> length (joinParagraphs (take (k - 1) ps) @ ps ! (k - 1))"
        unfolding joinParagraphs_snoc[OF kpos k(1)]
        by (rule trim_drops_break[OF isSpace_newline])
      with e l show ?thesis by simp
    qed
  qed
  show ?thesis
    using bound small big0 bigk k(1) k(4)
    unfolding ps_def[symmetric] Let_def maxLength_def by blast
qed

lemma execAt_break_other: "c \<noteq> CHR 0x0A \<Longrightarrow> execAt paragraphBreak (c # cs) = None"
  by (simp add: execAt_def paragraphBreak_def Chr_def)

lemma execAt_break_two:
  "c \<noteq> CHR 0x0A \<Longrightarrow>
   execAt paragraphBreak (CHR 0x0A # CHR 0x0A # c # cs) = Some ([CHR 0x0A, CHR 0x0A], c # cs)"
  by (simp add: execAt_def paragraphBreak_def Chr_def Plus_def ms.simps(7))

lemma splitLoop_text:
  "CHR 0x0A \<notin> set s \<Longrightarrow>
   splitLoop paragraphBreak acc (s @ rest) = splitLoop paragraphBreak (rev s @ acc) rest"
  by (induction s arbitrary: acc) (auto simp: execAt_break_other)

lemma splitLoop_text_end:
  "CHR 0x0A \<notin> set s \<Longrightarrow> splitLoop paragraphBreak acc s = [rev acc @ s]"
  using splitLoop_text[of s acc "[]"] by simp

lemma splitRx_two_paragraphs:
  assumes "CHR 0x0A \<notin> set p" "CHR 0x0A \<notin> set q" "p \<noteq> []" "q \<noteq> []"
  shows "splitRx paragraphBreak (p @ [CHR 0x0A, CHR 0x0A] @ q) = [p, q]"
proof -
  obtain c cs where q: "q = c # cs" using assms(4) by (cases q) auto
  with assms(2) have c: "c \<noteq> CHR 0x0A" by auto
  have "splitRx paragraphBreak (p @ [CHR 0x0A, CHR 0x0A] @ q)
        = splitLoop paragraphBreak [] (p @ [CHR 0x0A, CHR 0x0A] @ q)"
    using assms(3) by (simp add: splitRx_def)
  also have "\<dots> = splitLoop paragraphBreak (rev p) (CHR 0x0A # CHR 0x0A # c # cs)"
    using splitLoop_text[OF assms(1), of "[]"] q by simp
  also have "\<dots> = p # splitLoop paragraphBreak [] (c # cs)"
    using assms(3) by (simp add: execAt_break_two[OF c])
  also have "splitLoop paragraphBreak [] (c # cs) = [q]"
    using splitLoop_text_end[OF assms(2), of "[]"] q by simp
  finally show ?thesis .
qed

lemma splitRx_one_paragraph:
  "CHR 0x0A \<notin> set p \<Longrightarrow> p \<noteq> [] \<Longrightarrow> splitRx paragraphBreak p = [p]"
  using splitLoop_text_end[of p "[]"] by (simp add: splitRx_def)

lemma dropWhile_rev_last: "s \<noteq> [] \<Longrightarrow> \<not> P (last s) \<Longrightarrow> dropWhile P (rev s) = rev s"
  by (cases s rule: rev_cases) auto

lemma trim_break:
  assumes "s \<noteq> []" "\<not> isSpace (hd s)" "\<not> isSpace (last s)"
  shows "trim (s @ [CHR 0x0A, CHR 0x0A]) = s"
proof -
  obtain x xs where s: "s = x # xs" using assms(1) by (cases s) auto
  with assms(2) have 1: "trimStart (s @ [CHR 0x0A, CHR 0x0A]) = s @ [CHR 0x0A, CHR 0x0A]"
    by (simp add: trimStart_def)
  have "dropWhile isSpace (rev s) = rev s" using assms(1,3) by (rule dropWhile_rev_last)
  then have "trimEnd (s @ [CHR 0x0A, CHR 0x0A]) = s"
    by (simp add: trimEnd_def isSpace_newline)
  with 1 show ?thesis by (simp add: trim_def)
qed

lemma trim_clean:
  assumes "s \<noteq> []" "\<not> isSpace (hd s)" "\<not> isSpace (last s)"
  shows "trim s = s"
proof -
  obtain x xs where s: "s = x # xs" using assms(1) by (cases s) auto
  with assms(2) have 1: "trimStart s = s" by (simp add: trimStart_def)
  have "dropWhile isSpace (rev s) = rev s" using assms(1,3) by (rule dropWhile_rev_last)
  then have "trimEnd s = s" by (simp add: trimEnd_def)
  with 1 show ?thesis by (simp add: trim_def)
qed

theorem extractCompanyInsights_budget_witness:
  "3000 < length (replicate 2000 CHR ''a'' @ [CHR 0x0A, CHR 0x0A] @ replicate 2000 CHR ''b'')
   \<and> splitRx paragraphBreak (replicate 2000 CHR ''a'' @ [CHR 0x0A, CHR 0x0A] @ replicate 2000 CHR ''b'')
       = [replicate 2000 CHR ''a'', replicate 2000 CHR ''b'']
   \<and> extractCompanyInsights (replicate 2000 CHR ''a'' @ [CHR 0x0A, CHR 0x0A] @ replicate 2000 CHR ''b'')
       = replicate 2000 CHR ''a''
   \<and> length (extractCompanyInsights (replicate 2000 CHR ''a'' @ [CHR 0x0A, CHR 0x0A] @ replicate 2000 CHR ''b''))
       \<le> 3000"
proof -
  define p where "p = replicate 2000 CHR ''a''"
  define q where "q = replicate 2000 CHR ''b''"
  define c where "c = p @ [CHR 0x0A, CHR 0x0A] @ q"
  have lp: "length p = 2000" and lq: "length q = 2000" by (simp_all add: p_def q_def)
  then have ne: "p \<noteq> []" "q \<noteq> []" by auto
  have hp: "hd p = CHR ''a''" "last p = CHR ''a''" by (simp_all add: p_def)
  have sp: "splitRx paragraphBreak c = [p, q]"
    unfolding c_def by (rule splitRx_two_paragraphs) (simp_all add: p_def q_def)
  have big: "3000 < length c" by (simp add: c_def lp lq)
  have "3000 < length c \<longrightarrow>
        (let paragraphs = splitRx paragraphBreak c in
           (3000 < length (hd paragraphs)
              \<longrightarrow> extractCompanyInsights c = trim (take 3000 c))
         \<and> (length (hd paragraphs) \<le> 3000
              \<longrightarrow> (\<exists>k. 1 \<le> k \<and> k \<le> length paragraphs
                     \<and> extractCompanyInsights c = trim (joinParagraphs (take k paragraphs))
                     \<and> length (joinParagraphs (take (k - 1) paragraphs) @ paragraphs ! (k - 1)) \<le> 3000
                     \<and> (k < length paragraphs \<longrightarrow>
                           3000 < length (joinParagraphs (take k paragraphs) @ paragraphs ! k)))))"
    using extractCompanyInsights_budget[of c] by blast
  with big have "length (hd [p, q]) \<le> 3000
              \<longrightarrow> (\<exists>k. 1 \<le> k \<and> k \<le> length [p, q]
                     \<and> extractCompanyInsights c = trim (joinParagraphs (take k [p, q]))
                     \<and> length (joinParagraphs (take (k - 1) [p, q]) @ [p, q] ! (k - 1)) \<le> 3000
                     \<and> (k < length [p, q] \<longrightarrow>
                           3000 < length (joinParagraphs (take k [p, q]) @ [p, q] ! k)))"
    unfolding sp Let_def by blast
  moreover have "length (hd [p, q]) \<le> 3000" using lp by simp
  ultimately obtain k where k: "1 \<le> k" "k \<le> length [p, q]"
      "extractCompanyInsights c = trim (joinParagraphs (take k [p, q]))"
      "length (joinParagraphs (take (k - 1) [p, q]) @ [p, q] ! (k - 1)) \<le> 3000"
    by blast
  have "k = 1"
  proof (rule ccontr)
    assume "k \<noteq> 1"
    with k(1,2) have "k = 2" by simp
    with k(4) lp lq show False by (simp add: joinParagraphs_def)
  qed
  with k(3) have "extractCompanyInsights c = trim (p @ [CHR 0x0A, CHR 0x0A])"
    by (simp add: joinParagraphs_def)
  also have "\<dots> = p"
    using ne(1) hp by (intro trim_break) (simp_all add: isSpace_def cu_def)
  finally have r: "extractCompanyInsights c = p" .
  from extractCompanyInsights_budget[of c] have "length (extractCompanyInsights c) \<le> 3000" by blast
  with big sp r show ?thesis unfolding c_def p_def q_def by simp
qed

subsection \<open>C7: email extraction\<close>

lemma startsWith_prefix: "startsWith s t \<longleftrightarrow> prefix t s"
  by (induction s t rule: startsWith.induct) auto

lemma includesStr_sublist: "includesStr s t \<longleftrightarrow> sublist t s"
  by (induction s) (auto simp: startsWith_prefix sublist_Cons_right)

lemma includesStr_iff: "includesStr s t \<longleftrightarrow> (\<exists>a b. s = a @ t @ b)"
  by (simp add: includesStr_sublist sublist_def)

lemma uniq_fold:
  "distinct acc \<Longrightarrow>
   distinct (foldl (\<lambda>acc x. if x \<in> set acc then acc else acc @ [x]) acc xs)
   \<and> set (foldl (\<lambda>acc x. if x \<in> set acc then acc else acc @ [x]) acc xs) = set acc \<union> set xs"
  by (induction xs arbitrary: acc) auto

lemma distinct_uniq: "distinct (uniq xs)"
  using uniq_fold[of "[]" xs] by (simp add: uniq_def)

lemma set_uniq: "set (uniq xs) = set xs"
  using uniq_fold[of "[]" xs] by (simp add: uniq_def)

lemma isGenericEmail_iff:
  "isGenericEmail e \<longleftrightarrow>
   (\<exists>p\<in>set genericPrefixes. \<exists>a b. toLowerCase (takeWhile (\<lambda>c. c \<noteq> CHR ''@'') e) = a @ p @ b)"
  by (simp add: isGenericEmail_def hd_splitChar list_ex_iff includesStr_iff)

lemma isValidEmailFormat_iff:
  "isValidEmailFormat e \<longleftrightarrow>
   testStart strictPattern e \<and> length e \<le> 254 \<and> length (takeWhile (\<lambda>c. c \<noteq> CHR ''@'') e) \<le> 64"
  by (auto simp: isValidEmailFormat_def hd_splitChar Let_def)

text \<open>
  C7.  \<open>extractEmailsFromContent\<close> returns, without duplicates, exactly the matches of the
  email pattern in the content whose local part (the text before the first \<open>@\<close>,
  lower-cased) contains none of the generic-role substrings and which pass the stricter
  validation: the whole address matches the pattern, has at most 254 characters, and its
  local part at most 64.  \<open>noreply@acme.com\<close> is never returned; \<open>sales@acme.com\<close> is
  returned whenever it is among the matches.
\<close>

theorem extractEmailsFromContent_filters:
  "distinct (extractEmailsFromContent content)
   \<and> set (extractEmailsFromContent content) =
       {e. e \<in> set (matchAll emailPattern content)
          \<and> \<not> (\<exists>p\<in>set genericPrefixes. \<exists>a b.
                  toLowerCase (takeWhile (\<lambda>c. c \<noteq> CHR ''@'') e) = a @ p @ b)
          \<and> testStart strictPattern e \<and> length e \<le> 254
          \<and> length (takeWhile (\<lambda>c. c \<noteq> CHR ''@'') e) \<le> 64}
   \<and> ''noreply@acme.com'' \<notin> set (extractEmailsFromContent content)
   \<and> (''sales@acme.com'' \<in> set (matchAll emailPattern content)
        \<longrightarrow> ''sales@acme.com'' \<in> set (extractEmailsFromContent content))"
proof -
  have 1: "distinct (extractEmailsFromContent content)"
    by (simp add: extractEmailsFromContent_def distinct_uniq)
  have 2: "set (extractEmailsFromContent content) =
       {e. e \<in> set (matchAll emailPattern content) \<and> \<not> isGenericEmail e \<and> isValidEmailFormat e}"
    by (auto simp: extractEmailsFromContent_def set_uniq)
  have 3: "isGenericEmail ''noreply@acme.com''" by code_simp
  have 4: "\<not> isGenericEmail ''sales@acme.com''" by code_simp
  have 5: "isValidEmailFormat ''sales@acme.com''" by code_simp
  show ?thesis
    unfolding 2 using 1 3 4 5 by (auto simp: isGenericEmail_iff isValidEmailFormat_iff)
qed

theorem extractEmailsFromContent_filters_witness:
  "matchAll emailPattern ''Contact noreply@acme.com or sales@acme.com''
     = [''noreply@acme.com'', ''sales@acme.com'']
   \<and> ''sales@acme.com'' \<in> set (extractEmailsFromContent ''Contact noreply@acme.com or sales@acme.com'')
   \<and> ''noreply@acme.com'' \<notin> set (extractEmailsFromContent ''Contact noreply@acme.com or sales@acme.com'')"
proof -
  have m: "matchAll emailPattern ''Contact noreply@acme.com or sales@acme.com''
             = [''noreply@acme.com'', ''sales@acme.com'']"
    by code_simp
  from extractEmailsFromContent_filters[of "''Contact noreply@acme.com or sales@acme.com''"]
  have n: "''noreply@acme.com'' \<notin> set (extractEmailsFromContent ''Contact noreply@acme.com or sales@acme.com'')"
    and i: "''sales@acme.com'' \<in> set (matchAll emailPattern ''Contact noreply@acme.com or sales@acme.com'')
        \<longrightarrow> ''sales@acme.com'' \<in> set (extractEmailsFromContent ''Contact noreply@acme.com or sales@acme.com'')"
    by blast+
  from i have "''sales@acme.com'' \<in> set (extractEmailsFromContent ''Contact noreply@acme.com or sales@acme.com'')"
    unfolding m by simp
  with n m show ?thesis by blast
qed

lemma extractEmailsFromContent_example:
  "extractEmailsFromContent ''Contact noreply@acme.com or sales@acme.com, sales@acme.com''
   = [''sales@acme.com'']"
  by code_simp

subsection \<open>C6: email ranking\<close>

lemma splitChar_length: "c \<in> set s \<Longrightarrow> 2 \<le> length (splitChar c s)"
  by (induction s) (auto split: list.splits simp: splitChar_nonempty)

lemma splitChar_second:
  "c \<in> set s \<Longrightarrow> splitChar c s ! Suc 0 = takeWhile (\<lambda>x. x \<noteq> c) (tl (dropWhile (\<lambda>x. x \<noteq> c) s))"
proof (induction s)
  case Nil
  then show ?case by simp
next
  case (Cons x xs)
  show ?case
  proof (cases "x = c")
    case True
    then show ?thesis using hd_splitChar[of c xs] splitChar_nonempty[of c xs]
      by (simp add: hd_conv_nth)
  next
    case False
    with Cons.prems have "c \<in> set xs" by simp
    with Cons.IH False show ?thesis
      by (cases "splitChar c xs") (auto simp: splitChar_nonempty)
  qed
qed

lemma at_toLowerCase: "CHR ''@'' \<in> set e \<Longrightarrow> CHR ''@'' \<in> set (toLowerCase e)"
proof -
  assume "CHR ''@'' \<in> set e"
  moreover have "lowerChar CHR ''@'' = CHR ''@''" by (simp add: lowerChar_def isUpper_def cu_def)
  ultimately show ?thesis unfolding toLowerCase_def by (metis image_eqI set_map)
qed

lemma calculateEmailScore_formula:
  assumes "CHR ''@'' \<in> set e"
  shows "calculateEmailScore e d = Inr (
      (if includesStr (emailDomainOf e) d \<or> includesStr d (removeFirst lastLabelRx (emailDomainOf e))
       then 50 else 0)
    + (if \<exists>p\<in>set personalPatterns. includesStr (localPartOf e) p then 20 else 0)
    + (if length (localPartOf e) < 15 then 10 else 0)
    + (if testStart firstLastRx (localPartOf e) \<or> testStart singleWordRx (localPartOf e)
       then 15 else 0))"
proof -
  have a: "CHR ''@'' \<in> set (toLowerCase e)" using assms by (rule at_toLowerCase)
  have l: "\<not> length (splitChar CHR ''@'' (toLowerCase e)) < 2"
    using splitChar_length[OF a] by simp
  show ?thesis
    unfolding calculateEmailScore_def Let_def if_not_P[OF l]
    by (simp add: splitChar_second[OF a] hd_splitChar emailDomainOf_def localPartOf_def list_ex_iff)
qed

lemma mapE_all:
  "\<forall>x\<in>set xs. f x = Inr (g x) \<Longrightarrow> mapE f xs = Inr (map g xs)"
  by (induction xs) auto

lemma sorted_neg_desc:
  "sorted (map (\<lambda>x. - int (h x)) xs) \<Longrightarrow> sorted_wrt (\<lambda>a b. b \<le> a) (map h xs)"
  by (induction xs) auto

lemma rankEmails_eq:
  assumes "\<forall>e\<in>set addresses. CHR ''@'' \<in> set e"
  shows "rankEmails addresses d =
         Inr (map fst (sort_key (\<lambda>item. - int (snd item))
                (map (\<lambda>e. (e, scoreOf e (toLowerCase (removeStart wwwRx d)))) addresses)))"
proof -
  let ?b = "toLowerCase (removeStart wwwRx d)"
  have "\<forall>e\<in>set addresses. (case calculateEmailScore e ?b of Inl x \<Rightarrow> Inl x | Inr score \<Rightarrow> Inr (e, score))
          = Inr (e, scoreOf e ?b)"
    using assms by (auto simp: scoreOf_def calculateEmailScore_formula)
  from mapE_all[OF this] show ?thesis by (simp add: rankEmails_def)
qed

lemma ranked_props:
  fixes sc :: "'a \<Rightarrow> nat"
  defines "S \<equiv> \<lambda>xs. sort_key (\<lambda>item. - int (snd item)) (map (\<lambda>e. (e, sc e)) xs)"
  shows "mset (map fst (S xs)) = mset xs"
    and "sorted_wrt (\<lambda>a b. b \<le> a) (map sc (map fst (S xs)))"
    and "filter (\<lambda>e. sc e = k) (map fst (S xs)) = filter (\<lambda>e. sc e = k) xs"
proof -
  have inS: "\<And>it. it \<in> set (S xs) \<Longrightarrow> snd it = sc (fst it)"
    by (auto simp: S_def)
  show "mset (map fst (S xs)) = mset xs"
    by (simp add: S_def multiset.map_comp comp_def)
  have "sorted (map (\<lambda>item. - int (snd item)) (S xs))"
    unfolding S_def by (rule sorted_sort_key)
  then have "sorted_wrt (\<lambda>a b. b \<le> a) (map snd (S xs))" by (rule sorted_neg_desc)
  moreover have "map snd (S xs) = map sc (map fst (S xs))" using inS by simp
  ultimately show "sorted_wrt (\<lambda>a b. b \<le> a) (map sc (map fst (S xs)))" by simp
  have "filter (\<lambda>e. sc e = k) (map fst (S xs)) = map fst (filter (\<lambda>it. sc (fst it) = k) (S xs))"
    by (simp add: filter_map comp_def)
  also have "filter (\<lambda>it. sc (fst it) = k) (S xs) = filter (\<lambda>it. - int (snd it) = - int k) (S xs)"
    using inS by (intro filter_cong) auto
  also have "\<dots> = filter (\<lambda>it. - int (snd it) = - int k) (map (\<lambda>e. (e, sc e)) xs)"
    unfolding S_def by (rule sort_key_stable)
  also have "map fst \<dots> = filter (\<lambda>e. sc e = k) xs"
    by (induction xs) auto
  finally show "filter (\<lambda>e. sc e = k) (map fst (S xs)) = filter (\<lambda>e. sc e = k) xs" .
qed

text \<open>
  C6.  For candidates that each contain an \<open>@\<close>, \<open>rankEmails\<close> returns a permutation of
  the candidates in descending order of score, candidates of equal score keeping the order
  they came in.  The score of a candidate is the sum of 50 when its domain contains the
  target domain or the target domain contains its domain without the last label, 20 when
  its local part contains one of \<open>hello, hi, info, contact, sales, team\<close>, 10 when its local
  part is shorter than 15 characters, and 15 when its local part has the shape
  \<open>first.last\<close> or is one word of 4 to 12 lower-case letters.
\<close>

theorem rankEmails_descending_stable:
  assumes "\<forall>e\<in>set addresses. CHR ''@'' \<in> set e"
  shows "\<exists>ranked. rankEmails addresses d = Inr ranked
           \<and> mset ranked = mset addresses
           \<and> sorted_wrt (\<lambda>a b. b \<le> a)
                 (map (\<lambda>e. scoreOf e (toLowerCase (removeStart wwwRx d))) ranked)
           \<and> (\<forall>k. filter (\<lambda>e. scoreOf e (toLowerCase (removeStart wwwRx d)) = k) ranked
                    = filter (\<lambda>e. scoreOf e (toLowerCase (removeStart wwwRx d)) = k) addresses)
           \<and> (\<forall>e\<in>set addresses. \<forall>b. scoreOf e b =
                  (if includesStr (emailDomainOf e) b
                      \<or> includesStr b (removeFirst lastLabelRx (emailDomainOf e))
                   then 50 else 0)
                + (if \<exists>p\<in>set personalPatterns. includesStr (localPartOf e) p then 20 else 0)
                + (if length (localPartOf e) < 15 then 10 else 0)
                + (if testStart firstLastRx (localPartOf e) \<or> testStart singleWordRx (localPartOf e)
                   then 15 else 0))"
proof -
  let ?b = "toLowerCase (removeStart wwwRx d)"
  let ?r = "map fst (sort_key (\<lambda>item. - int (snd item)) (map (\<lambda>e. (e, scoreOf e ?b)) addresses))"
  have 1: "rankEmails addresses d = Inr ?r" using assms by (rule rankEmails_eq)
  have 2: "mset ?r = mset addresses" by (rule ranked_props(1))
  have 3: "sorted_wrt (\<lambda>a b. b \<le> a) (map (\<lambda>e. scoreOf e ?b) ?r)" by (rule ranked_props(2))
  have 4: "\<forall>k. filter (\<lambda>e. scoreOf e ?b = k) ?r = filter (\<lambda>e. scoreOf e ?b = k) addresses"
    by (intro allI ranked_props(3))
  have 5: "\<forall>e\<in>set addresses. \<forall>b. scoreOf e b =
                  (if includesStr (emailDomainOf e) b
                      \<or> includesStr b (removeFirst lastLabelRx (emailDomainOf e))
                   then 50 else 0)
                + (if \<exists>p\<in>set personalPatterns. includesStr (localPartOf e) p then 20 else 0)
                + (if length (localPartOf e) < 15 then 10 else 0)
                + (if testStart firstLastRx (localPartOf e) \<or> testStart singleWordRx (localPartOf e)
                   then 15 else 0)"
    using assms by (simp add: scoreOf_def calculateEmailScore_formula)
  from 1 2 3 4 5 show ?thesis by blast
qed

theorem rankEmails_descending_stable_witness:
  "CHR ''@'' \<in> set ''info@other.com'' \<and> CHR ''@'' \<in> set ''jane.doe@acme.com''
   \<and> scoreOf ''info@other.com'' ''acme.com'' = 45
   \<and> scoreOf ''jane.doe@acme.com'' ''acme.com'' = 75
   \<and> rankEmails [''info@other.com'', ''jane.doe@acme.com''] ''acme.com''
       = Inr [''jane.doe@acme.com'', ''info@other.com'']"
proof -
  have a: "\<forall>e\<in>set [''info@other.com'', ''jane.doe@acme.com'']. CHR ''@'' \<in> set e" by simp
  have b: "toLowerCase (removeStart wwwRx ''acme.com'') = ''acme.com''" by code_simp
  have i: "scoreOf ''info@other.com'' ''acme.com'' = 45" by code_simp
  have j: "scoreOf ''jane.doe@acme.com'' ''acme.com'' = 75" by code_simp
  from rankEmails_descending_stable[OF a, of "''acme.com''"] obtain ranked where
    r: "rankEmails [''info@other.com'', ''jane.doe@acme.com''] ''acme.com'' = Inr ranked"
    and m: "mset ranked = mset [''info@other.com'', ''jane.doe@acme.com'']"
    and s: "sorted_wrt (\<lambda>a b. b \<le> a) (map (\<lambda>e. scoreOf e ''acme.com'') ranked)"
    unfolding b by blast
  from m have l: "length ranked = length [''info@other.com'', ''jane.doe@acme.com'']"
    by (rule mset_eq_length)
  from m have e: "set ranked = set [''info@other.com'', ''jane.doe@acme.com'']"
    by (rule mset_eq_setD)
  from l obtain x y where xy: "ranked = [x, y]"
    by (cases ranked; cases "tl ranked") auto
  with e have "(x = ''info@other.com'' \<and> y = ''jane.doe@acme.com'')
             \<or> (x = ''jane.doe@acme.com'' \<and> y = ''info@other.com'')"
    by (auto simp: doubleton_eq_iff)
  with s xy i j have "ranked = [''jane.doe@acme.com'', ''info@other.com'']" by auto
  with r i j show ?thesis by simp
qed

subsection \<open>The enrichment pipeline: one task\<close>

lemma stepsFrom_refl: "stepsFrom st st I"
  by (simp add: stepsFrom_def)

lemma stepsFrom_trans: "stepsFrom a b I \<Longrightarrow> stepsFrom b c I \<Longrightarrow> stepsFrom a c I"
  unfolding stepsFrom_def by (auto simp: image_Un)

lemma stepsFrom_mono: "stepsFrom a b I \<Longrightarrow> I \<subseteq> J \<Longrightarrow> stepsFrom a b J"
  unfolding stepsFrom_def by blast

lemma stepsFrom_log: "i \<in> I \<Longrightarrow> stepsFrom a b I \<Longrightarrow> stepsFrom a (logEvent i e b) I"
  unfolding stepsFrom_def logEvent_def by auto

lemma stepsFrom_world: "stepsFrom a b I \<Longrightarrow> stepsFrom a (b\<lparr>world := w\<rparr>) I"
  unfolding stepsFrom_def by auto

lemma stepsFrom_usage: "stepsFrom a b I \<Longrightarrow> stepsFrom a (b\<lparr>usageAcc := u\<rparr>) I"
  unfolding stepsFrom_def by auto

lemma finishTask_steps:
  "stepsFrom a b I \<Longrightarrow> globalIndex t \<in> I \<Longrightarrow> stepsFrom a (snd (finishTask t r b)) I"
  unfolding finishTask_def Let_def
  by (simp add: stepsFrom_log stepsFrom_usage)

lemma finishTask_same: "sameTask t (fst (finishTask t r b))"
  by (simp add: finishTask_def Let_def sameTask_def)

lemma afterScrape_stepsFrom:
  "stepsFrom a b I \<Longrightarrow> globalIndex t \<in> I \<Longrightarrow> stepsFrom a (snd (afterScrape env t sr b)) I"
  unfolding afterScrape_def
  by (simp add: finishTask_steps stepsFrom_log)

lemma afterScrape_same: "sameTask t (fst (afterScrape env t sr b))"
  unfolding afterScrape_def by (simp add: finishTask_same) (simp add: sameTask_def)

lemma tryContactPaths_stepsFrom:
  "stepsFrom a b I \<Longrightarrow> globalIndex t \<in> I \<Longrightarrow> stepsFrom a (snd (tryContactPaths env t ps m b)) I"
  by (induction ps) (simp_all add: afterScrape_stepsFrom stepsFrom_log Let_def)

lemma tryContactPaths_same: "sameTask t (fst (tryContactPaths env t ps m b))"
  by (induction ps) (simp_all add: afterScrape_same Let_def, simp add: sameTask_def)

lemma resumeTask_stepsFrom:
  assumes "stepsFrom a b I" "globalIndex t \<in> I"
  shows "stepsFrom a (snd (resumeTask env t b)) I"
proof -
  have s: "\<And>w. stepsFrom a (logEvent (globalIndex t) FetchSettled (b\<lparr>world := w\<rparr>)) I"
    using assms by (simp add: stepsFrom_log stepsFrom_world)
  show ?thesis
    unfolding resumeTask_def
    by (simp add: Let_def s assms finishTask_steps afterScrape_stepsFrom tryContactPaths_stepsFrom
          stepsFrom_log
        split: phase.splits prod.splits sum.splits)
qed

lemma resumeTask_same: "sameTask t (fst (resumeTask env t b))"
proof -
  have r: "sameTask t t" by (simp add: sameTask_def)
  have u: "\<And>p. sameTask t (t\<lparr>taskPhase := p\<rparr>)" by (simp add: sameTask_def)
  show ?thesis
    unfolding resumeTask_def
    by (simp add: Let_def finishTask_same afterScrape_same tryContactPaths_same r u
        split: phase.splits prod.splits sum.splits)
qed

lemma startTask_stepsFrom:
  "stepsFrom a b I \<Longrightarrow> gi \<in> I \<Longrightarrow> stepsFrom a (snd (startTask env n opts gi l b)) I"
  unfolding startTask_def Let_def by (simp add: stepsFrom_log)

lemma startTask_task:
  "taskLead (fst (startTask env n opts gi l b)) = l
   \<and> globalIndex (fst (startTask env n opts gi l b)) = gi"
  unfolding startTask_def Let_def by simp

lemma finishTask_inv:
  "outcomeOK (taskLead t) r \<Longrightarrow> phaseInv (taskLead t) (taskPhase (fst (finishTask t r st)))"
  by (simp add: finishTask_phase phaseInv_def)

lemma afterScrape_inv: "phaseInv (taskLead t) (taskPhase (fst (afterScrape env t sr st)))"
proof -
  have 1: "\<not> success sr \<or> \<not> truthy (markdown sr) \<Longrightarrow>
        outcomeOK (taskLead t) (failedResult (taskLead t) (scrapeFailureMessage sr) (Some sr) None)"
    unfolding outcomeOK_def by blast
  have 2: "success sr \<Longrightarrow> truthy (markdown sr) \<Longrightarrow>
        outcomeOK (taskLead t) (failedResult (taskLead t) ''API not initialized'' (Some sr) None)"
    unfolding outcomeOK_def by blast
  show ?thesis
    unfolding afterScrape_def
    using 1 2 by (auto simp: finishTask_inv) (simp add: phaseInv_def)
qed

lemma tryContactPaths_inv:
  "phaseInv (taskLead t) (taskPhase (fst (tryContactPaths env t ps m st)))"
  by (induction ps) (simp_all add: afterScrape_inv Let_def, simp add: phaseInv_def)

lemma resumeTask_inv:
  assumes "phaseInv (taskLead t) (taskPhase t)"
  shows "phaseInv (taskLead t) (taskPhase (fst (resumeTask env t st)))"
proof (cases "taskPhase t")
  case AwaitMainScrape
  have "\<And>msg. outcomeOK (taskLead t) (failedResult (taskLead t) msg None None)"
    unfolding outcomeOK_def by blast
  then show ?thesis
    unfolding resumeTask_def AwaitMainScrape
    by (simp add: Let_def finishTask_inv afterScrape_inv tryContactPaths_inv
          split: prod.splits sum.splits)
next
  case (AwaitContactScrape u ps m)
  show ?thesis
    unfolding resumeTask_def AwaitContactScrape
    by (simp add: Let_def afterScrape_inv tryContactPaths_inv split: prod.splits sum.splits)
next
  case (AwaitExtract sr)
  with assms have sr: "success sr" "truthy (markdown sr)" by (simp_all add: phaseInv_def)
  have 1: "\<And>msg. outcomeOK (taskLead t) (failedResult (taskLead t) msg (Some sr) None)"
    using sr unfolding outcomeOK_def by blast
  have 2: "\<And>er msg. outcomeOK (taskLead t)
             (failedResult (withEmailOf (taskLead t) er) msg (Some sr) (Some er))"
    using sr unfolding outcomeOK_def by blast
  have 3: "\<And>er ir. outcomeOK (taskLead t) (completedResult (taskLead t) sr er ir)"
    using sr unfolding outcomeOK_def by blast
  have 4: "\<And>er. phaseInv (taskLead t) (AwaitIcebreaker sr er)"
    using sr by (simp add: phaseInv_def)
  show ?thesis
    unfolding resumeTask_def AwaitExtract
    by (simp add: Let_def finishTask_inv 1 2 3 4 split: prod.splits sum.splits)
next
  case (AwaitIcebreaker sr er)
  with assms have sr: "success sr" "truthy (markdown sr)" by (simp_all add: phaseInv_def)
  have 2: "\<And>msg. outcomeOK (taskLead t)
             (failedResult (withEmailOf (taskLead t) er) msg (Some sr) (Some er))"
    using sr unfolding outcomeOK_def by blast
  have 3: "\<And>ir. outcomeOK (taskLead t) (completedResult (taskLead t) sr er ir)"
    using sr unfolding outcomeOK_def by blast
  show ?thesis
    unfolding resumeTask_def AwaitIcebreaker
    by (simp add: Let_def finishTask_inv 2 3 split: prod.splits sum.splits)
next
  case (Returning r)
  with assms have "outcomeOK (taskLead t) r" by (simp add: phaseInv_def)
  then show ?thesis
    unfolding resumeTask_def Returning by (simp add: finishTask_inv)
next
  case (Resolved r)
  have "fst (resumeTask env t st) = t" unfolding resumeTask_def Resolved by simp
  with assms show ?thesis by simp
qed

lemma startTask_inv:
  "phaseInv l (taskPhase (fst (startTask env n opts gi l st)))"
proof -
  have 1: "\<not> hasValidDomain l \<Longrightarrow> outcomeOK l (skippedResult l)"
    unfolding outcomeOK_def by blast
  have 2: "outcomeOK l (failedResult l ''API not initialized'' None None)"
    unfolding outcomeOK_def by blast
  show ?thesis
    unfolding startTask_def Let_def using 1 2 by (simp add: phaseInv_def)
qed

subsection \<open>The enrichment pipeline: batches\<close>

lemma tasksFor_Cons:
  "taskLead t = l \<Longrightarrow> globalIndex t = i \<Longrightarrow> phaseInv l (taskPhase t) \<Longrightarrow>
   tasksFor ls (Suc i) ts \<Longrightarrow> tasksFor (l # ls) i (t # ts)"
  unfolding tasksFor_def by (auto simp: nth_Cons split: nat.splits)

lemma startTasks_props:
  "startTasks env n opts i batch st = (tasks, st') \<Longrightarrow>
   tasksFor batch i tasks \<and> stepsFrom st st' {i..<i + length batch}"
proof (induction batch arbitrary: i st tasks st')
  case Nil
  then show ?case by (simp add: tasksFor_def stepsFrom_refl)
next
  case (Cons l ls)
  obtain t st1 where 1: "startTask env n opts i l st = (t, st1)" by (cases "startTask env n opts i l st")
  obtain ts st2 where 2: "startTasks env n opts (Suc i) ls st1 = (ts, st2)"
    by (cases "startTasks env n opts (Suc i) ls st1")
  from Cons.prems 1 2 have e: "tasks = t # ts" "st' = st2" by simp_all
  from Cons.IH[OF 2] have ih: "tasksFor ls (Suc i) ts" "stepsFrom st1 st2 {Suc i..<Suc i + length ls}"
    by simp_all
  have a: "stepsFrom st st1 {i..<i + length (l # ls)}"
    using startTask_stepsFrom[OF stepsFrom_refl, of i "{i..<i + length (l # ls)}" st env n opts l] 1
    by simp
  have b: "stepsFrom st1 st2 {i..<i + length (l # ls)}"
    using ih(2) by (rule stepsFrom_mono) auto
  have t: "taskLead t = l" "globalIndex t = i" "phaseInv l (taskPhase t)"
    using startTask_task[of env n opts i l st] startTask_inv[of l env n opts i st] 1 by simp_all
  show ?case
    unfolding e using tasksFor_Cons[OF t ih(1)] stepsFrom_trans[OF a b] by simp
qed

lemma pendingTasks_Nil: "pendingTasks tasks = [] \<Longrightarrow> \<forall>t\<in>set tasks. isResolved t"
  unfolding pendingTasks_def by (auto simp: filter_empty_conv in_set_conv_nth)

lemma tasksFor_update:
  assumes "tasksFor batch i tasks" "j < length tasks" "sameTask (tasks ! j) t"
    "phaseInv (taskLead (tasks ! j)) (taskPhase t)"
  shows "tasksFor batch i (tasks[j := t])"
  using assms unfolding tasksFor_def sameTask_def by (auto simp: nth_list_update)

lemma runTasks_props:
  "tasksFor batch i tasks \<Longrightarrow> stepsFrom a st I \<Longrightarrow> {i..<i + length batch} \<subseteq> I \<Longrightarrow>
   runTasks env tasks st = (tasks', st') \<Longrightarrow>
   tasksFor batch i tasks' \<and> stepsFrom a st' I \<and> (\<forall>t\<in>set tasks'. isResolved t)"
proof (induction env tasks st rule: runTasks.induct)
  case (1 env tasks st)
  show ?case
  proof (cases "pendingTasks tasks = []")
    case True
    with "1.prems"(4) have "tasks' = tasks" "st' = st" by (simp_all add: runTasks.simps)
    with "1.prems" True show ?thesis by (simp add: pendingTasks_Nil)
  next
    case False
    define j where "j = pendingTasks tasks ! (pick env (world st) mod length (pendingTasks tasks))"
    obtain t st1 where r: "resumeTask env (tasks ! j) st = (t, st1)"
      by (cases "resumeTask env (tasks ! j) st")
    from pendingTasks_pick[OF False, of "pick env (world st)"] have jl: "j < length tasks"
      by (simp add: j_def)
    from "1.prems"(1) jl have gi: "globalIndex (tasks ! j) = i + j" "j < length batch"
      and pi: "phaseInv (taskLead (tasks ! j)) (taskPhase (tasks ! j))"
      by (auto simp: tasksFor_def)
    have same: "sameTask (tasks ! j) t" using resumeTask_same[of "tasks ! j" env st] r by simp
    have inv: "phaseInv (taskLead (tasks ! j)) (taskPhase t)"
      using resumeTask_inv[OF pi, of env st] r by simp
    have tf: "tasksFor batch i (tasks[j := t])"
      using "1.prems"(1) jl same inv by (rule tasksFor_update)
    have "globalIndex (tasks ! j) \<in> I" using gi "1.prems"(3) by auto
    from resumeTask_stepsFrom[OF "1.prems"(2) this, of env] r
    have sf: "stepsFrom a st1 I" by simp
    have run: "runTasks env (tasks[j := t]) st1 = (tasks', st')"
      using "1.prems"(4) False r by (subst (asm) runTasks.simps) (simp add: Let_def j_def)
    show ?thesis
      using "1.IH"[OF refl False j_def r[symmetric] refl tf sf "1.prems"(3) run] .
  qed
qed

lemma map_filter_all:
  "\<forall>x\<in>set xs. f x \<noteq> None \<Longrightarrow> List.map_filter f xs = map (\<lambda>x. the (f x)) xs"
  by (induction xs) (auto simp: List.map_filter_simps)

lemma resolved_outcome:
  "isResolved t \<Longrightarrow> phaseInv l (taskPhase t) \<Longrightarrow>
   resolvedResult t \<noteq> None \<and> outcomeOK l (the (resolvedResult t))"
  by (cases "taskPhase t") (simp_all add: isResolved_def resolvedResult_def phaseInv_def)

lemma runBatch_props:
  assumes "runBatch env vl k i st = (rs, st')"
  shows "length rs = length (take k (drop i vl))
       \<and> (\<forall>j<length (take k (drop i vl)). outcomeOK (take k (drop i vl) ! j) (rs ! j))
       \<and> batchCount st' = Suc (batchCount st)
       \<and> (\<exists>evs. trace st' = trace st @ evs
             \<and> fst ` set evs \<subseteq> {i..<i + length (take k (drop i vl))})"
proof -
  let ?batch = "take k (drop i vl)"
  let ?st0 = "st\<lparr>batchCount := batchCount st + 1\<rparr>"
  obtain tasks st1 where s: "startTasks env (length vl) phase1Options i ?batch ?st0 = (tasks, st1)"
    by (cases "startTasks env (length vl) phase1Options i ?batch ?st0")
  obtain tasks' st2 where r: "runTasks env tasks st1 = (tasks', st2)"
    by (cases "runTasks env tasks st1")
  from assms s r have e: "rs = List.map_filter resolvedResult tasks'" "st' = st2"
    by (simp_all add: runBatch_def Let_def)
  from startTasks_props[OF s] have tf: "tasksFor ?batch i tasks"
    and sf: "stepsFrom ?st0 st1 {i..<i + length ?batch}" by simp_all
  from runTasks_props[OF tf sf subset_refl r]
  have tf': "tasksFor ?batch i tasks'" and sf': "stepsFrom ?st0 st2 {i..<i + length ?batch}"
    and res: "\<forall>t\<in>set tasks'. isResolved t" by simp_all
  have len: "length tasks' = length ?batch" using tf' by (simp add: tasksFor_def)
  have each: "\<forall>j<length ?batch. resolvedResult (tasks' ! j) \<noteq> None
                \<and> outcomeOK (?batch ! j) (the (resolvedResult (tasks' ! j)))"
  proof (intro allI impI)
    fix j assume j: "j < length ?batch"
    with len res have "isResolved (tasks' ! j)" by simp
    moreover from tf' j have "phaseInv (?batch ! j) (taskPhase (tasks' ! j))"
      by (simp add: tasksFor_def)
    ultimately show "resolvedResult (tasks' ! j) \<noteq> None
                \<and> outcomeOK (?batch ! j) (the (resolvedResult (tasks' ! j)))"
      by (rule resolved_outcome)
  qed
  have "\<forall>t\<in>set tasks'. resolvedResult t \<noteq> None"
    using each len by (auto simp: in_set_conv_nth)
  then have rs: "rs = map (\<lambda>t. the (resolvedResult t)) tasks'"
    unfolding e by (rule map_filter_all)
  from sf' have "batchCount st2 = Suc (batchCount st)"
    and "\<exists>evs. trace st2 = trace st @ evs \<and> fst ` set evs \<subseteq> {i..<i + length ?batch}"
    by (simp_all add: stepsFrom_def)
  with rs len each e(2) show ?thesis by simp
qed

lemma ceil_step:
  assumes "i < n" "0 < (k::nat)"
  shows "Suc ((n - (i + k) + k - 1) div k) = (n - i + k - 1) div k"
proof (cases "k \<le> n - i")
  case True
  then have "n - i + k - 1 = (n - (i + k) + k - 1) + k" using assms by simp
  then show ?thesis using assms(2) by (simp only: div_add_self2)
next
  case False
  then have 1: "n - (i + k) = 0" by simp
  have "k \<le> n - i + k - 1" "n - i + k - 1 < 2 * k" using False assms by simp_all
  then have "(n - i + k - 1) div k = 1"
    by (metis One_nat_def assms(2) div_nat_eqI mult.right_neutral mult_2_right mult_Suc_right nat_mult_1_right one_add_one numeral_2_eq_2 mult.commute)
  with 1 assms(2) show ?thesis by simp
qed

lemma sorted_const: "\<forall>e\<in>set xs. f e = (c::nat) \<Longrightarrow> sorted (map f xs)"
  by (induction xs) auto

lemma batchLoop_props:
  assumes k: "0 < k"
  shows "k dvd i \<Longrightarrow>
    \<exists>rs st'. batchLoop env vl k i results st = Some (results @ rs, st')
      \<and> length rs = length vl - i
      \<and> (\<forall>j<length vl - i. outcomeOK (vl ! (i + j)) (rs ! j))
      \<and> batchCount st' = batchCount st + (length vl - i + k - 1) div k
      \<and> (\<exists>evs. trace st' = trace st @ evs \<and> fst ` set evs \<subseteq> {i..<length vl}
             \<and> sorted (map (\<lambda>e. fst e div k) evs))"
proof (induction "length vl - i" arbitrary: i results st rule: less_induct)
  case less
  show ?case
  proof (cases "i < length vl")
    case False
    then have "batchLoop env vl k i results st = Some (results, st)"
      by (subst batchLoop.simps) simp
    moreover from False k have "(length vl - i + k - 1) div k = 0" by simp
    ultimately show ?thesis using False
      by (intro exI[of _ "[]"] exI[of _ st]) simp
  next
    case True
    define batch where "batch = take k (drop i vl)"
    obtain rs1 st1 where rb: "runBatch env vl k i st = (rs1, st1)"
      by (cases "runBatch env vl k i st")
    from runBatch_props[OF rb, folded batch_def] obtain evs1 where
      l1: "length rs1 = length batch"
      and o1: "\<forall>j<length batch. outcomeOK (batch ! j) (rs1 ! j)"
      and b1: "batchCount st1 = Suc (batchCount st)"
      and t1: "trace st1 = trace st @ evs1" "fst ` set evs1 \<subseteq> {i..<i + length batch}"
      by (elim conjE exE) blast
    have lb: "length batch = min k (length vl - i)" by (simp add: batch_def)
    have nb: "\<And>j. j < length batch \<Longrightarrow> batch ! j = vl ! (i + j)"
      using True by (simp add: batch_def)
    have dv: "k dvd i + k" using less.prems by simp
    have dec: "length vl - (i + k) < length vl - i" using True k by simp
    from less.hyps[OF dec dv, of "results @ rs1" st1] obtain rs2 st2 evs2 where
      bl: "batchLoop env vl k (i + k) (results @ rs1) st1 = Some ((results @ rs1) @ rs2, st2)"
      and l2: "length rs2 = length vl - (i + k)"
      and o2: "\<forall>j<length vl - (i + k). outcomeOK (vl ! (i + k + j)) (rs2 ! j)"
      and b2: "batchCount st2 = batchCount st1 + (length vl - (i + k) + k - 1) div k"
      and t2: "trace st2 = trace st1 @ evs2" "fst ` set evs2 \<subseteq> {i + k..<length vl}"
          "sorted (map (\<lambda>e. fst e div k) evs2)"
      by blast
    have 1: "batchLoop env vl k i results st = Some (results @ (rs1 @ rs2), st2)"
      using True rb bl by (subst batchLoop.simps) simp
    have "min k (length vl - i) + (length vl - (i + k)) = length vl - i" by arith
    then have 2: "length (rs1 @ rs2) = length vl - i" using l1 l2 lb by simp
    have 3: "\<forall>j<length vl - i. outcomeOK (vl ! (i + j)) ((rs1 @ rs2) ! j)"
    proof (intro allI impI)
      fix j assume j: "j < length vl - i"
      show "outcomeOK (vl ! (i + j)) ((rs1 @ rs2) ! j)"
      proof (cases "j < length rs1")
        case True
        with l1 o1 have "outcomeOK (batch ! j) (rs1 ! j)" by simp
        moreover from True l1 have "batch ! j = vl ! (i + j)" by (simp add: nb)
        ultimately show ?thesis using True by (simp add: nth_append)
      next
        case False
        with l1 lb j have lk: "length rs1 = k" by auto
        with False j have "j - k < length vl - (i + k)" by simp
        with o2 have "outcomeOK (vl ! (i + k + (j - k))) (rs2 ! (j - k))" by simp
        moreover from False lk have "i + k + (j - k) = i + j" by simp
        ultimately show ?thesis using False lk by (simp add: nth_append)
      qed
    qed
    have 4: "batchCount st2 = batchCount st + (length vl - i + k - 1) div k"
      using b1 b2 ceil_step[OF True k] by simp
    have e1: "\<forall>e\<in>set evs1. fst e div k = i div k"
    proof
      fix e assume "e \<in> set evs1"
      then have "fst e \<in> {i..<i + length batch}" using t1(2) by blast
      with lb have a: "i \<le> fst e" "fst e < i + k" by auto
      from less.prems obtain q where q: "i = k * q" by (auto simp: dvd_def)
      with a have "fst e div k = q" using k
        by (intro div_nat_eqI) (simp_all add: mult.commute)
      with q k show "fst e div k = i div k" by simp
    qed
    have e2: "\<forall>e\<in>set evs2. i div k < fst e div k"
    proof
      fix e assume "e \<in> set evs2"
      then have "fst e \<in> {i + k..<length vl}" using t2(2) by blast
      then have "i + k \<le> fst e" by simp
      then have "(i + k) div k \<le> fst e div k" by (rule div_le_mono)
      moreover have "(i + k) div k = Suc (i div k)" using k by (simp add: div_add_self2)
      ultimately show "i div k < fst e div k" by simp
    qed
    have "sorted (map (\<lambda>e. fst e div k) evs1)"
      using e1 by (rule sorted_const)
    moreover have "\<forall>x\<in>set (map (\<lambda>e. fst e div k) evs1).
                     \<forall>y\<in>set (map (\<lambda>e. fst e div k) evs2). x \<le> y"
    proof (intro ballI)
      fix x y
      assume "x \<in> set (map (\<lambda>e. fst e div k) evs1)" "y \<in> set (map (\<lambda>e. fst e div k) evs2)"
      then obtain a b where "a \<in> set evs1" "x = fst a div k" "b \<in> set evs2" "y = fst b div k"
        by auto
      with e1 e2 show "x \<le> y" by (metis less_imp_le)
    qed
    ultimately have 5: "sorted (map (\<lambda>e. fst e div k) (evs1 @ evs2))"
      using t2(3) by (simp only: map_append sorted_append)
    have s1: "{i..<i + length batch} \<subseteq> {i..<length vl}" using lb by auto
    have s2: "{i + k..<length vl} \<subseteq> {i..<length vl}" by auto
    have "fst ` set evs1 \<subseteq> {i..<length vl}" using t1(2) s1 by (rule subset_trans)
    moreover have "fst ` set evs2 \<subseteq> {i..<length vl}" using t2(2) s2 by (rule subset_trans)
    ultimately have 6: "fst ` set (evs1 @ evs2) \<subseteq> {i..<length vl}"
      by (simp only: set_append image_Un Un_subset_iff)
    have 7: "trace st2 = trace st @ (evs1 @ evs2)" using t1(1) t2(1) by simp
    show ?thesis
      by (rule exI[of _ "rs1 @ rs2"], rule exI[of _ st2], intro conjI 1 2 3 4,
          rule exI[of _ "evs1 @ evs2"], intro conjI 7 6 5)
  qed
qed

subsection \<open>The enrichment pipeline: every task runs to its end\<close>

lemma completionLogged_mono:
  assumes "stepsFrom a b I" "completionLogged i a"
  shows "completionLogged i b"
proof -
  from assms(2) obtain p r where pr: "(i, OnProgress p r) \<in> set (trace a)" "stage p = Extracting"
    unfolding completionLogged_def by blast
  from assms(1) obtain evs where "trace b = trace a @ evs" unfolding stepsFrom_def by blast
  with pr(1) have "(i, OnProgress p r) \<in> set (trace b)" by simp
  with pr(2) show ?thesis unfolding completionLogged_def by blast
qed

lemma finishTask_snd:
  "\<exists>u. snd (finishTask t r st)
        = logEvent (globalIndex t)
            (OnProgress \<lparr>stage = Extracting, currentIndex = globalIndex t + 1,
                         totalCount = taskTotal t, currentLead = website (taskLead t),
                         usage = u\<rparr> r) (st\<lparr>usageAcc := u\<rparr>)"
  unfolding finishTask_def Let_def snd_conv by (rule exI, rule refl)

lemma finishTask_logged: "completionLogged (globalIndex t) (snd (finishTask t r st))"
proof -
  from finishTask_snd[of t r st] obtain u where
    "snd (finishTask t r st)
        = logEvent (globalIndex t)
            (OnProgress \<lparr>stage = Extracting, currentIndex = globalIndex t + 1,
                         totalCount = taskTotal t, currentLead = website (taskLead t),
                         usage = u\<rparr> r) (st\<lparr>usageAcc := u\<rparr>)" by blast
  then have "(globalIndex t, OnProgress \<lparr>stage = Extracting, currentIndex = globalIndex t + 1,
                         totalCount = taskTotal t, currentLead = website (taskLead t),
                         usage = u\<rparr> r) \<in> set (trace (snd (finishTask t r st)))"
    by (simp add: logEvent_def)
  then show ?thesis unfolding completionLogged_def
    by (intro exI conjI) (assumption, simp)
qed

lemma afterScrape_logged:
  assumes "isResolved (fst (afterScrape env t sr st))"
  shows "completionLogged (globalIndex t) (snd (afterScrape env t sr st))"
proof (cases "\<not> success sr \<or> \<not> truthy (markdown sr)")
  case True
  then show ?thesis unfolding afterScrape_def by (simp add: finishTask_logged)
next
  case False
  show ?thesis
  proof (cases "ready env")
    case True
    with False assms show ?thesis unfolding afterScrape_def by (simp add: isResolved_def)
  next
    case False
    with \<open>\<not> (\<not> success sr \<or> \<not> truthy (markdown sr))\<close> show ?thesis
      unfolding afterScrape_def by (simp add: finishTask_logged)
  qed
qed

lemma tryContactPaths_logged:
  "isResolved (fst (tryContactPaths env t ps m st))
   \<Longrightarrow> completionLogged (globalIndex t) (snd (tryContactPaths env t ps m st))"
proof (induction ps)
  case Nil
  then show ?case by (simp add: afterScrape_logged)
next
  case (Cons p ps)
  show ?case
  proof (cases "ready env")
    case True
    with Cons.prems show ?thesis by (simp add: isResolved_def Let_def)
  next
    case False
    with Cons show ?thesis by simp
  qed
qed

lemma resumeTask_logged:
  assumes "\<not> isResolved t" "isResolved (fst (resumeTask env t st))"
  shows "completionLogged (globalIndex t) (snd (resumeTask env t st))"
proof (cases "taskPhase t")
  case AwaitMainScrape
  obtain response w where s: "scrapeService env (website (taskLead t)) (world st) = (response, w)"
    by (cases "scrapeService env (website (taskLead t)) (world st)")
  let ?st = "logEvent (globalIndex t) FetchSettled (st\<lparr>world := w\<rparr>)"
  show ?thesis
  proof (cases response)
    case (Inl msg)
    then show ?thesis unfolding resumeTask_def AwaitMainScrape
      by (simp add: s Let_def finishTask_logged)
  next
    case (Inr mainResult)
    have e: "resumeTask env t st = (if hasEmail mainResult then afterScrape env t mainResult ?st
               else tryContactPaths env t contactPaths mainResult ?st)"
      unfolding resumeTask_def AwaitMainScrape by (simp add: s Inr Let_def)
    show ?thesis
      using assms(2) unfolding e
      by (auto intro: afterScrape_logged tryContactPaths_logged split: if_splits)
  qed
next
  case (AwaitContactScrape u ps m)
  obtain response w where s: "scrapeService env u (world st) = (response, w)"
    by (cases "scrapeService env u (world st)")
  let ?st = "logEvent (globalIndex t) FetchSettled (st\<lparr>world := w\<rparr>)"
  have e: "resumeTask env t st =
       (case response of Inl message \<Rightarrow> tryContactPaths env t ps m ?st
        | Inr result \<Rightarrow> if hasEmail result then afterScrape env t result ?st
                         else tryContactPaths env t ps m ?st)"
    unfolding resumeTask_def AwaitContactScrape by (simp add: s Let_def)
  show ?thesis
    using assms(2) unfolding e
    by (auto intro: afterScrape_logged tryContactPaths_logged split: if_splits sum.splits)
next
  case (AwaitExtract sr)
  obtain response w where s: "extractService env (markdownOf sr)
        (extractDomain env (website (taskLead t))) (world st) = (response, w)"
    by (cases "extractService env (markdownOf sr)
        (extractDomain env (website (taskLead t))) (world st)")
  show ?thesis
  proof (cases response)
    case (Inl msg)
    then show ?thesis unfolding resumeTask_def AwaitExtract
      by (simp add: s Let_def finishTask_logged)
  next
    case (Inr er)
    show ?thesis
    proof (cases "generateIcebreakerOpt (taskOptions t) \<and> truthy (markdown sr) \<and> ready env")
      case True
      with assms(2) show ?thesis unfolding resumeTask_def AwaitExtract
        by (simp add: s Inr Let_def isResolved_def)
    next
      case False
      then show ?thesis unfolding resumeTask_def AwaitExtract
        by (auto simp: s Inr Let_def finishTask_logged)
    qed
  qed
next
  case (AwaitIcebreaker sr er)
  show ?thesis
    unfolding resumeTask_def AwaitIcebreaker
    by (simp add: Let_def finishTask_logged split: prod.splits sum.splits)
next
  case (Returning r)
  then show ?thesis unfolding resumeTask_def by (simp add: finishTask_logged)
next
  case (Resolved r)
  with assms(1) show ?thesis by (simp add: isResolved_def)
qed

lemma runTasks_logged:
  "\<forall>t\<in>set tasks. isResolved t \<longrightarrow> completionLogged (globalIndex t) st \<Longrightarrow>
   runTasks env tasks st = (tasks', st') \<Longrightarrow>
   \<forall>t\<in>set tasks'. isResolved t \<longrightarrow> completionLogged (globalIndex t) st'"
proof (induction env tasks st rule: runTasks.induct)
  case (1 env tasks st)
  show ?case
  proof (cases "pendingTasks tasks = []")
    case True
    with "1.prems"(2) have "tasks' = tasks" "st' = st" by (simp_all add: runTasks.simps)
    with "1.prems"(1) show ?thesis by simp
  next
    case False
    define j where "j = pendingTasks tasks ! (pick env (world st) mod length (pendingTasks tasks))"
    obtain t st1 where r: "resumeTask env (tasks ! j) st = (t, st1)"
      by (cases "resumeTask env (tasks ! j) st")
    from pendingTasks_pick[OF False, of "pick env (world st)"]
    have jl: "j < length tasks" and nr: "\<not> isResolved (tasks ! j)" by (simp_all add: j_def)
    have same: "globalIndex t = globalIndex (tasks ! j)"
      using resumeTask_same[of "tasks ! j" env st] r by (simp add: sameTask_def)
    have sf: "stepsFrom st st1 UNIV"
      using resumeTask_stepsFrom[OF stepsFrom_refl, of "tasks ! j" UNIV st env] r by simp
    have new: "isResolved t \<longrightarrow> completionLogged (globalIndex t) st1"
      using resumeTask_logged[OF nr, of env st] r same by simp
    have inv: "\<forall>u\<in>set (tasks[j := t]). isResolved u \<longrightarrow> completionLogged (globalIndex u) st1"
    proof (intro ballI impI)
      fix u assume u: "u \<in> set (tasks[j := t])" "isResolved u"
      from u(1) have "u = t \<or> u \<in> set tasks"
        using set_update_subset_insert[of tasks j t] by auto
      then show "completionLogged (globalIndex u) st1"
      proof
        assume "u = t" with new u(2) show ?thesis by simp
      next
        assume "u \<in> set tasks"
        with "1.prems"(1) u(2) have "completionLogged (globalIndex u) st" by simp
        with sf show ?thesis by (rule completionLogged_mono)
      qed
    qed
    have run: "runTasks env (tasks[j := t]) st1 = (tasks', st')"
      using "1.prems"(2) False r by (subst (asm) runTasks.simps) (simp add: Let_def j_def)
    show ?thesis
      using "1.IH"[OF refl False j_def r[symmetric] refl inv run] .
  qed
qed

lemma startTask_unresolved: "\<not> isResolved (fst (startTask env n opts gi l st))"
  unfolding startTask_def Let_def by (simp add: isResolved_def)

lemma startTasks_unresolved:
  "startTasks env n opts i batch st = (tasks, st') \<Longrightarrow> \<forall>t\<in>set tasks. \<not> isResolved t"
proof (induction batch arbitrary: i st tasks st')
  case Nil
  then show ?case by simp
next
  case (Cons l ls)
  obtain t st1 where 1: "startTask env n opts i l st = (t, st1)" by (cases "startTask env n opts i l st")
  obtain ts st2 where 2: "startTasks env n opts (Suc i) ls st1 = (ts, st2)"
    by (cases "startTasks env n opts (Suc i) ls st1")
  from Cons.prems 1 2 have e: "tasks = t # ts" by simp
  from startTask_unresolved[of env n opts i l st] 1 have "\<not> isResolved t" by simp
  with Cons.IH[OF 2] e show ?case by simp
qed

lemma runBatch_logged:
  assumes "runBatch env vl k i st = (rs, st')"
  shows "\<forall>j<length (take k (drop i vl)). completionLogged (i + j) st'"
proof -
  define batch where "batch = take k (drop i vl)"
  let ?st0 = "st\<lparr>batchCount := batchCount st + 1\<rparr>"
  obtain tasks st1 where s: "startTasks env (length vl) phase1Options i batch ?st0 = (tasks, st1)"
    by (cases "startTasks env (length vl) phase1Options i batch ?st0")
  obtain tasks' st2 where r: "runTasks env tasks st1 = (tasks', st2)"
    by (cases "runTasks env tasks st1")
  from assms s r have e: "st' = st2" by (simp add: runBatch_def Let_def batch_def)
  from startTasks_props[OF s] have tf: "tasksFor batch i tasks"
    and sf: "stepsFrom ?st0 st1 {i..<i + length batch}" by simp_all
  from runTasks_props[OF tf sf subset_refl r]
  have tf': "tasksFor batch i tasks'" and res: "\<forall>t\<in>set tasks'. isResolved t" by simp_all
  from startTasks_unresolved[OF s]
  have "\<forall>t\<in>set tasks. isResolved t \<longrightarrow> completionLogged (globalIndex t) st1" by simp
  from runTasks_logged[OF this r]
  have lg: "\<forall>t\<in>set tasks'. isResolved t \<longrightarrow> completionLogged (globalIndex t) st2" .
  show ?thesis
  proof (intro allI impI)
    fix j assume "j < length (take k (drop i vl))"
    then have j: "j < length batch" by (simp add: batch_def)
    with tf' have m: "tasks' ! j \<in> set tasks'" and g: "globalIndex (tasks' ! j) = i + j"
      by (simp_all add: tasksFor_def)
    from m res lg have "completionLogged (globalIndex (tasks' ! j)) st2" by blast
    with g e show "completionLogged (i + j) st'" by simp
  qed
qed

lemma batchLoop_logged:
  assumes k: "0 < k"
  shows "k dvd i \<Longrightarrow> batchLoop env vl k i results st = Some (rs, st')
         \<Longrightarrow> \<forall>j. i \<le> j \<and> j < length vl \<longrightarrow> completionLogged j st'"
proof (induction "length vl - i" arbitrary: i results st rule: less_induct)
  case less
  show ?case
  proof (cases "i < length vl")
    case False
    then show ?thesis by auto
  next
    case True
    obtain rs1 st1 where rb: "runBatch env vl k i st = (rs1, st1)"
      by (cases "runBatch env vl k i st")
    have dv: "k dvd i + k" using less.prems(1) by simp
    have dec: "length vl - (i + k) < length vl - i" using True k by simp
    have bl: "batchLoop env vl k (i + k) (results @ rs1) st1 = Some (rs, st')"
      using less.prems(2) True rb by (subst (asm) batchLoop.simps) simp
    from less.hyps[OF dec dv bl]
    have later: "\<forall>j. i + k \<le> j \<and> j < length vl \<longrightarrow> completionLogged j st'" .
    from batchLoop_props[OF k dv, of env vl "results @ rs1" st1] bl
    obtain evs where "trace st' = trace st1 @ evs" by auto
    then have ext: "\<And>j. completionLogged j st1 \<Longrightarrow> completionLogged j st'"
      unfolding completionLogged_def by auto
    show ?thesis
    proof (intro allI impI)
      fix j assume j: "i \<le> j \<and> j < length vl"
      show "completionLogged j st'"
      proof (cases "j < i + k")
        case True
        with j have "j - i < length (take k (drop i vl))" by auto
        with runBatch_logged[OF rb] have "completionLogged (i + (j - i)) st1" by blast
        with j have "completionLogged j st1" by simp
        then show ?thesis by (rule ext)
      next
        case False
        with j later show ?thesis by simp
      qed
    qed
  qed
qed

subsection \<open>C3: batches\<close>

lemma findEmailsForLeads_props:
  assumes k: "0 < maxConcurrency config"
  shows "\<exists>rs st. findEmailsForLeads env leads config w
             = Some (rs @ map skippedResult (filter (\<lambda>l. \<not> hasValidDomain l) leads), st)
      \<and> batchLoop env (filter hasValidDomain leads) (maxConcurrency config) 0 [] (initialState w)
             = Some (rs, st)
      \<and> length rs = length (filter hasValidDomain leads)
      \<and> (\<forall>j<length (filter hasValidDomain leads).
             outcomeOK (filter hasValidDomain leads ! j) (rs ! j))
      \<and> batchCount st = (length (filter hasValidDomain leads) + maxConcurrency config - 1)
                           div maxConcurrency config
      \<and> fst ` set (trace st) \<subseteq> {0..<length (filter hasValidDomain leads)}
      \<and> sorted (map (\<lambda>e. fst e div maxConcurrency config) (trace st))
      \<and> (\<forall>j<length (filter hasValidDomain leads). completionLogged j st)"
proof -
  let ?vl = "filter hasValidDomain leads"
  let ?k = "maxConcurrency config"
  have "\<exists>rs st'. batchLoop env ?vl ?k 0 [] (initialState w) = Some (rs, st')
      \<and> length rs = length ?vl
      \<and> (\<forall>j<length ?vl. outcomeOK (?vl ! j) (rs ! j))
      \<and> batchCount st' = batchCount (initialState w) + (length ?vl + ?k - 1) div ?k
      \<and> (\<exists>evs. trace st' = trace (initialState w) @ evs \<and> fst ` set evs \<subseteq> {0..<length ?vl}
             \<and> sorted (map (\<lambda>e. fst e div ?k) evs))"
    using batchLoop_props[OF k dvd_0_right, of env ?vl "[]" "initialState w"] by simp
  then obtain rs st evs where b: "batchLoop env ?vl ?k 0 [] (initialState w) = Some (rs, st)"
    and l: "length rs = length ?vl"
    and o: "\<forall>j<length ?vl. outcomeOK (?vl ! j) (rs ! j)"
    and c: "batchCount st = batchCount (initialState w) + (length ?vl + ?k - 1) div ?k"
    and t: "trace st = trace (initialState w) @ evs" "fst ` set evs \<subseteq> {0..<length ?vl}"
           "sorted (map (\<lambda>e. fst e div ?k) evs)"
    by (elim exE conjE)
  have f: "findEmailsForLeads env leads config w
             = Some (rs @ map skippedResult (filter (\<lambda>l. \<not> hasValidDomain l) leads), st)"
    by (simp add: findEmailsForLeads_def Let_def b)
  have c': "batchCount st = (length ?vl + ?k - 1) div ?k" using c by (simp add: initialState_def)
  have t': "trace st = evs" using t(1) by (simp add: initialState_def)
  have g: "\<forall>j<length ?vl. completionLogged j st"
    using batchLoop_logged[OF k dvd_0_right b] by simp
  show ?thesis
    by (rule exI[of _ rs], rule exI[of _ st], intro conjI f b l o c' g)
       (simp_all only: t' t(2) t(3))
qed

lemma ceil_bounds:
  assumes "0 < (k::nat)"
  shows "n \<le> ((n + k - 1) div k) * k \<and> ((n + k - 1) div k) * k < n + k"
proof -
  have e: "((n + k - 1) div k) * k + (n + k - 1) mod k = n + k - 1" by simp
  have m: "(n + k - 1) mod k < k" using assms by simp
  from e m assms show ?thesis by linarith
qed

text \<open>
  C3.  With \<open>maxConcurrency = k > 0\<close> and \<open>n\<close> leads with a valid domain,
  \<open>findEmailsForLeads\<close> returns, whatever the backend answers and in whatever order.  It
  starts \<open>(n + k - 1) div k\<close> batches, the least number \<open>b\<close> with \<open>n \<le> b * k\<close>, which is
  \<open>n / k\<close> rounded up.  Along the trace the batch number \<open>index div k\<close> of the events never
  decreases: every callback, fetch and response of a lead of one batch comes before every
  event of the next batch.  Every event belongs to a lead with a valid domain, and each of
  these leads has its second callback in the trace, so its task has run to its end.
  Inside a batch the tasks interleave as the backend answers; the sample run below shows
  two tasks of a batch taking turns.
\<close>

theorem findEmailsForLeads_batches:
  assumes "0 < maxConcurrency config"
  shows "\<exists>results st. findEmailsForLeads env leads config w = Some (results, st)
      \<and> batchCount st = (length (filter hasValidDomain leads) + maxConcurrency config - 1)
                           div maxConcurrency config
      \<and> length (filter hasValidDomain leads) \<le> batchCount st * maxConcurrency config
      \<and> batchCount st * maxConcurrency config
           < length (filter hasValidDomain leads) + maxConcurrency config
      \<and> sorted (map (\<lambda>e. fst e div maxConcurrency config) (trace st))
      \<and> (\<forall>e\<in>set (trace st). fst e < length (filter hasValidDomain leads))
      \<and> (\<forall>j<length (filter hasValidDomain leads). completionLogged j st)"
proof -
  from findEmailsForLeads_props[OF assms, of env leads w] obtain rs st where
    f: "findEmailsForLeads env leads config w
             = Some (rs @ map skippedResult (filter (\<lambda>l. \<not> hasValidDomain l) leads), st)"
    and c: "batchCount st = (length (filter hasValidDomain leads) + maxConcurrency config - 1)
                           div maxConcurrency config"
    and i: "fst ` set (trace st) \<subseteq> {0..<length (filter hasValidDomain leads)}"
    and s: "sorted (map (\<lambda>e. fst e div maxConcurrency config) (trace st))"
    and g: "\<forall>j<length (filter hasValidDomain leads). completionLogged j st"
    by (elim exE conjE)
  from i have i': "\<forall>e\<in>set (trace st). fst e < length (filter hasValidDomain leads)" by auto
  from ceil_bounds[OF assms, of "length (filter hasValidDomain leads)"] c
  have b: "length (filter hasValidDomain leads) \<le> batchCount st * maxConcurrency config"
    "batchCount st * maxConcurrency config
           < length (filter hasValidDomain leads) + maxConcurrency config" by simp_all
  show ?thesis
    by (rule exI[of _ "rs @ map skippedResult (filter (\<lambda>l. \<not> hasValidDomain l) leads)"],
        rule exI[of _ st], intro conjI f c b s i' g)
qed

theorem findEmailsForLeads_batches_witness:
  "0 < maxConcurrency (DEFAULT_CONFIG\<lparr>maxConcurrency := 2\<rparr>)
   \<and> length (filter hasValidDomain fourLeads) = 3
   \<and> map_option (batchCount \<circ> snd)
        (findEmailsForLeads (sampleBackend pageScrape) fourLeads
           (DEFAULT_CONFIG\<lparr>maxConcurrency := 2\<rparr>) 0) = Some 2
   \<and> map_option (map fst \<circ> trace \<circ> snd)
        (findEmailsForLeads (sampleBackend pageScrape) fourLeads
           (DEFAULT_CONFIG\<lparr>maxConcurrency := 2\<rparr>) 0)
       = Some [0, 0, 1, 1, 0, 0, 1, 1, 0, 0, 1, 1, 2, 2, 2, 2, 2, 2]"
proof -
  have k: "0 < maxConcurrency (DEFAULT_CONFIG\<lparr>maxConcurrency := 2\<rparr>)" by simp
  have n: "length (filter hasValidDomain fourLeads) = 3" by code_simp
  have t: "map_option (map fst \<circ> trace \<circ> snd)
        (findEmailsForLeads (sampleBackend pageScrape) fourLeads
           (DEFAULT_CONFIG\<lparr>maxConcurrency := 2\<rparr>) 0)
       = Some [0, 0, 1, 1, 0, 0, 1, 1, 0, 0, 1, 1, 2, 2, 2, 2, 2, 2]"
    by code_simp
  from findEmailsForLeads_batches[OF k, of "sampleBackend pageScrape" fourLeads 0]
  obtain results st where
    f: "findEmailsForLeads (sampleBackend pageScrape) fourLeads
           (DEFAULT_CONFIG\<lparr>maxConcurrency := 2\<rparr>) 0 = Some (results, st)"
    and c: "batchCount st = (length (filter hasValidDomain fourLeads)
              + maxConcurrency (DEFAULT_CONFIG\<lparr>maxConcurrency := 2\<rparr>) - 1)
              div maxConcurrency (DEFAULT_CONFIG\<lparr>maxConcurrency := 2\<rparr>)"
    by (elim exE conjE)
  from c n have "batchCount st = 2" by simp
  with f have "map_option (batchCount \<circ> snd)
        (findEmailsForLeads (sampleBackend pageScrape) fourLeads
           (DEFAULT_CONFIG\<lparr>maxConcurrency := 2\<rparr>) 0) = Some 2" by simp
  with k n t show ?thesis by (intro conjI)
qed

subsection \<open>C4: leads without a valid domain\<close>

text \<open>
  C4.  With \<open>maxConcurrency > 0\<close> the results are those of the leads with a valid domain,
  followed by one skipped result for each lead without, in the order of the input.  The
  final state (the outside world, the usage, the trace) is the one of the run on the leads
  with a valid domain alone: a lead without a valid domain causes no fetch and no callback.
  Its result is the lead with status \<open>skipped\<close>, without scrape result or email result.
\<close>

theorem invalid_leads_skipped_without_calls:
  assumes "0 < maxConcurrency config"
  shows "\<exists>rs st. findEmailsForLeads env leads config w
             = Some (rs @ map skippedResult (filter (\<lambda>l. \<not> hasValidDomain l) leads), st)
      \<and> findEmailsForLeads env (filter hasValidDomain leads) config w = Some (rs, st)
      \<and> length rs = length (filter hasValidDomain leads)
      \<and> (\<forall>e\<in>set (trace st). fst e < length (filter hasValidDomain leads))
      \<and> (\<forall>l. lead (skippedResult l) = l\<lparr>enrichmentStatus := Skipped\<rparr>
             \<and> scrapeResult (skippedResult l) = None \<and> emailResult (skippedResult l) = None)"
proof -
  from findEmailsForLeads_props[OF assms, of env leads w] obtain rs st where
    f: "findEmailsForLeads env leads config w
             = Some (rs @ map skippedResult (filter (\<lambda>l. \<not> hasValidDomain l) leads), st)"
    and b: "batchLoop env (filter hasValidDomain leads) (maxConcurrency config) 0 [] (initialState w)
             = Some (rs, st)"
    and l: "length rs = length (filter hasValidDomain leads)"
    and i: "fst ` set (trace st) \<subseteq> {0..<length (filter hasValidDomain leads)}"
    by (elim exE conjE)
  from i have i': "\<forall>e\<in>set (trace st). fst e < length (filter hasValidDomain leads)" by auto
  have g: "findEmailsForLeads env (filter hasValidDomain leads) config w = Some (rs, st)"
    by (simp add: findEmailsForLeads_def Let_def b)
  have s: "\<forall>l. lead (skippedResult l) = l\<lparr>enrichmentStatus := Skipped\<rparr>
             \<and> scrapeResult (skippedResult l) = None \<and> emailResult (skippedResult l) = None"
    by (simp add: skippedResult_def)
  show ?thesis
    by (rule exI[of _ rs], rule exI[of _ st], intro conjI f g l i' s)
qed

theorem invalid_leads_skipped_without_calls_witness:
  "0 < maxConcurrency DEFAULT_CONFIG
   \<and> map hasValidDomain fourLeads = [True, False, True, True]
   \<and> map_option (map (website \<circ> lead) \<circ> fst)
        (findEmailsForLeads (sampleBackend pageScrape) fourLeads DEFAULT_CONFIG 0)
       = Some [''https://a.io'', ''https://b.io'', ''https://c.io'', ''not a domain'']
   \<and> map_option (map statusAndError \<circ> fst)
        (findEmailsForLeads (sampleBackend pageScrape) fourLeads DEFAULT_CONFIG 0)
       = Some [(Completed, None), (Completed, None), (Completed, None), (Skipped, None)]
   \<and> map_option (trace \<circ> snd) (findEmailsForLeads (sampleBackend pageScrape) fourLeads DEFAULT_CONFIG 0)
       = map_option (trace \<circ> snd)
           (findEmailsForLeads (sampleBackend pageScrape) (filter hasValidDomain fourLeads)
              DEFAULT_CONFIG 0)"
proof -
  have k: "0 < maxConcurrency DEFAULT_CONFIG" by (simp add: DEFAULT_CONFIG_def)
  have v: "map hasValidDomain fourLeads = [True, False, True, True]" by code_simp
  have w: "map_option (map (website \<circ> lead) \<circ> fst)
        (findEmailsForLeads (sampleBackend pageScrape) fourLeads DEFAULT_CONFIG 0)
       = Some [''https://a.io'', ''https://b.io'', ''https://c.io'', ''not a domain'']"
    by code_simp
  have s: "map_option (map statusAndError \<circ> fst)
        (findEmailsForLeads (sampleBackend pageScrape) fourLeads DEFAULT_CONFIG 0)
       = Some [(Completed, None), (Completed, None), (Completed, None), (Skipped, None)]"
    by code_simp
  from invalid_leads_skipped_without_calls[OF k, of "sampleBackend pageScrape" fourLeads 0]
  obtain rs st where
    "findEmailsForLeads (sampleBackend pageScrape) fourLeads DEFAULT_CONFIG 0
       = Some (rs @ map skippedResult (filter (\<lambda>l. \<not> hasValidDomain l) fourLeads), st)"
    "findEmailsForLeads (sampleBackend pageScrape) (filter hasValidDomain fourLeads)
       DEFAULT_CONFIG 0 = Some (rs, st)"
    by (elim exE conjE)
  then have "map_option (trace \<circ> snd)
       (findEmailsForLeads (sampleBackend pageScrape) fourLeads DEFAULT_CONFIG 0)
       = map_option (trace \<circ> snd)
           (findEmailsForLeads (sampleBackend pageScrape) (filter hasValidDomain fourLeads)
              DEFAULT_CONFIG 0)" by simp
  with k v w s show ?thesis by (intro conjI)
qed

subsection \<open>C5: failures of one lead\<close>










subsection \<open>C1: the fallback to the contact pages\<close>








subsection \<open>C8: the CSV round trip\<close>




















end
